theory Spec2Isabelle
  imports Main "HOL-Library.Word"
begin

unbundle bit_operations_syntax

section \<open>The integer kind a copy of strtoi.h is compiled for\<close>

text \<open>
  \<^verbatim>\<open>strtoi.h\<close> is a template: the file that includes it defines \<^verbatim>\<open>strtoi\<close>,
  \<^verbatim>\<open>strtoi_type\<close>, \<^verbatim>\<open>strtoi_utype\<close>, \<^verbatim>\<open>strtoi_min\<close>, \<^verbatim>\<open>strtoi_max\<close> and, for a signed
  type, \<^verbatim>\<open>strtoi_signed\<close>. The record below holds what those macros and the target
  fix: the width of \<^verbatim>\<open>strtoi_type\<close>, its signedness, whether the compiler offers
  \<^verbatim>\<open>__builtin_mul_overflow\<close> and \<^verbatim>\<open>__builtin_add_overflow\<close>, and the width of \<^verbatim>\<open>int\<close>.
  Values of \<^verbatim>\<open>strtoi_type\<close> are mathematical integers kept in the type's range by
  the conversions \<open>to_type\<close> and \<open>to_utype\<close>; arithmetic in the signed type wraps
  around in two's complement.
\<close>

record kind =
  bits :: nat
  is_signed :: bool
  have_builtin_overflow :: bool
  int_bits :: nat

definition kind_ok :: "kind \<Rightarrow> bool" where
  "kind_ok k = (16 \<le> bits k \<and> 16 \<le> int_bits k)"

text \<open>
  Modelled from the spec: the including file's macros \<^verbatim>\<open>strtoi_min\<close> and \<^verbatim>\<open>strtoi_max\<close>
  are not part of the sources at hand; they are the least and the greatest value of
  the width kind (``min, max, unsigned-counterpart, signed-flag'').
\<close>

definition strtoi_min :: "kind \<Rightarrow> int" where
  "strtoi_min k = (if is_signed k then - (2 ^ (bits k - 1)) else 0)"

definition strtoi_max :: "kind \<Rightarrow> int" where
  "strtoi_max k = (if is_signed k then 2 ^ (bits k - 1) - 1 else 2 ^ bits k - 1)"

text \<open>Conversion to \<^verbatim>\<open>strtoi_utype\<close>, to \<^verbatim>\<open>strtoi_type\<close> and to \<^verbatim>\<open>unsigned int\<close>.\<close>

definition to_utype :: "kind \<Rightarrow> int \<Rightarrow> int" where
  "to_utype k x = x mod 2 ^ bits k"

definition to_type :: "kind \<Rightarrow> int \<Rightarrow> int" where
  "to_type k x =
     (if is_signed k then (x + 2 ^ (bits k - 1)) mod 2 ^ bits k - 2 ^ (bits k - 1)
      else x mod 2 ^ bits k)"

definition to_unsigned_int :: "kind \<Rightarrow> int \<Rightarrow> int" where
  "to_unsigned_int k x = x mod 2 ^ int_bits k"

text \<open>\<^verbatim>\<open>USE_OVERFLOW\<close> is defined when both builtins exist and the type is unsigned.\<close>

definition USE_OVERFLOW :: "kind \<Rightarrow> bool" where
  "USE_OVERFLOW k = (have_builtin_overflow k \<and> \<not> is_signed k)"

section \<open>Characters and the input string\<close>

type_synonym uchar = "8 word"

text \<open>
  The input is a NUL-terminated string: the list holds its bytes, and the byte read
  at or after the end of the list is the terminator. A pointer into the string is
  the offset from the \<^verbatim>\<open>nptr\<close> the caller passed.
\<close>

definition load :: "uchar list \<Rightarrow> nat \<Rightarrow> uchar" where
  "load m p = (if p < length m then m ! p else 0)"

definition CASE_CONVERT :: uchar where
  "CASE_CONVERT = 97 - 65"

definition TOLOW :: "uchar \<Rightarrow> uchar" where
  "TOLOW c = c OR CASE_CONVERT"

definition ISSPACE :: "uchar \<Rightarrow> bool" where
  "ISSPACE c = ((9 \<le> c \<and> c \<le> 13) \<or> c = 32)"

definition FLAG_NEG :: uchar where "FLAG_NEG = 1"
definition FLAG_ANY :: uchar where "FLAG_ANY = 2"
definition FLAG_OFLOW :: uchar where "FLAG_OFLOW = 4"

section \<open>The phases of strtoi\<close>

text \<open>Skip leading spaces: \<^verbatim>\<open>do { i = *s++; } while (ISSPACE(i));\<close>\<close>

function skip_spaces :: "uchar list \<Rightarrow> nat \<Rightarrow> uchar \<times> nat" where
  "skip_spaces m s =
     (let i = load m s in
      if ISSPACE i then skip_spaces m (s + 1) else (i, s + 1))"
  by pat_completeness auto
termination
  by (relation "measure (\<lambda>(m, s). length m - s)")
     (auto simp: load_def ISSPACE_def split: if_splits)

declare skip_spaces.simps [simp del]

text \<open>The sign: \<^verbatim>\<open>'-'\<close> sets \<^verbatim>\<open>FLAG_NEG\<close> and falls through to \<^verbatim>\<open>'+'\<close>, which reads on.\<close>

definition parse_sign :: "uchar list \<Rightarrow> uchar \<times> nat \<Rightarrow> uchar \<times> uchar \<times> nat" where
  "parse_sign m = (\<lambda>(i, s).
     if i = 45 then (FLAG_NEG, load m s, s + 1)
     else if i = 43 then (0, load m s, s + 1)
     else (0, i, s))"

text \<open>
  A leading \<^verbatim>\<open>'0'\<close>: the base indication. The result is the new \<^verbatim>\<open>base\<close>, the new
  \<^verbatim>\<open>nptr\<close> (moved onto the \<^verbatim>\<open>x\<close> when a hexadecimal prefix is taken), \<^verbatim>\<open>i\<close> and \<^verbatim>\<open>s\<close>.
\<close>

definition base_prefix ::
  "uchar list \<Rightarrow> uchar \<Rightarrow> uchar \<times> nat \<Rightarrow> uchar \<times> nat \<times> uchar \<times> nat" where
  "base_prefix m base = (\<lambda>(i, s).
     if i = 48 then
       if TOLOW (load m s) = 120 \<and> (base = 0 \<or> base = 16) then (16, s, load m (s + 1), s + 2)
       else if base = 0 then (8, 0, i, s)
       else (base, 0, i, s)
     else if base = 0 then (10, 0, i, s)
     else (base, 0, i, s))"

text \<open>The values used to detect overflow when \<^verbatim>\<open>USE_OVERFLOW\<close> is not defined.\<close>

definition ucutoff :: "kind \<Rightarrow> uchar \<Rightarrow> int" where
  "ucutoff k flags =
     (if is_signed k then
        (if flags \<noteq> 0 then to_utype k (- to_utype k (strtoi_min k)) else to_utype k (strtoi_max k))
      else strtoi_max k)"

definition cutoff :: "kind \<Rightarrow> uchar \<Rightarrow> uchar \<Rightarrow> int" where
  "cutoff k flags base = to_type k (ucutoff k flags div uint base)"

definition cutlim :: "kind \<Rightarrow> uchar \<Rightarrow> uchar \<Rightarrow> int" where
  "cutlim k flags base = ucutoff k flags mod uint base"

text \<open>
  The head of the loop body: a letter is folded to lower case and moved behind the
  decimal digits, then \<^verbatim>\<open>'0'\<close> is subtracted, all in \<^verbatim>\<open>unsigned char\<close>.
\<close>

definition digit_of :: "uchar \<Rightarrow> uchar" where
  "digit_of i = (if TOLOW i \<ge> 97 then TOLOW i + ((48 - 97) + 10) else i) - 48"

text \<open>
  Adding the digit \<open>i\<close>. With \<^verbatim>\<open>USE_OVERFLOW\<close> the multiplication stores its wrapped
  product and, when it overflows, the addition is not evaluated. Without it the
  test against \<open>cutoff\<close> and \<open>cutlim\<close> comes first and the multiply-add always happens.
\<close>

definition add_digit ::
  "kind \<Rightarrow> uchar \<Rightarrow> int \<Rightarrow> int \<Rightarrow> uchar \<Rightarrow> int \<times> uchar \<Rightarrow> int \<times> uchar" where
  "add_digit k base co cl i = (\<lambda>(val, flags).
     if USE_OVERFLOW k then
       (if to_type k (val * uint base) \<noteq> val * uint base
        then (to_type k (val * uint base), flags OR FLAG_OFLOW OR FLAG_ANY)
        else if to_type k (val * uint base + uint i) \<noteq> val * uint base + uint i
        then (to_type k (val * uint base + uint i), flags OR FLAG_OFLOW OR FLAG_ANY)
        else (to_type k (val * uint base + uint i), flags OR FLAG_ANY))
     else
       (to_type k (val * uint base + uint i),
        (if val > co \<or> (val = co \<and> uint i > cl) then flags OR 4 else flags) OR FLAG_ANY))"

text \<open>The loop body run over a sequence of characters that are all digits.\<close>

definition add_digits ::
  "kind \<Rightarrow> uchar \<Rightarrow> int \<Rightarrow> int \<Rightarrow> uchar list \<Rightarrow> int \<times> uchar \<Rightarrow> int \<times> uchar" where
  "add_digits k base co cl cs vf = foldl (\<lambda>vf c. add_digit k base co cl (digit_of c) vf) vf cs"

text \<open>
  The loop \<^verbatim>\<open>for(;;)\<close>. It leaves only through \<^verbatim>\<open>break\<close>, so its result is optional:
  \<open>None\<close> stands for a loop that never leaves.
\<close>

partial_function (option) accumulate ::
  "kind \<Rightarrow> uchar \<Rightarrow> int \<Rightarrow> int \<Rightarrow> uchar list \<Rightarrow> nat \<Rightarrow> uchar \<Rightarrow> int \<times> uchar
     \<Rightarrow> (nat \<times> int \<times> uchar) option" where
  "accumulate k base co cl m s i vf =
     (if digit_of i \<ge> base then Some (s, vf)
      else accumulate k base co cl m (s + 1) (load m s) (add_digit k base co cl (digit_of i) vf))"

declare accumulate.simps [code]

text \<open>
  What the caller gets: the returned value, \<^verbatim>\<open>*endptr\<close> as an offset from the \<^verbatim>\<open>nptr\<close>
  it passed (\<^verbatim>\<open>endptr\<close> is taken to be non-null), and the value stored in \<^verbatim>\<open>errno\<close> if
  one is stored. The local \<^verbatim>\<open>flags\<close> at return are kept beside them, since the status
  of the specification is read off them.
\<close>

datatype errno = EINVAL | ERANGE

record result =
  val :: int
  endptr :: nat
  err :: "errno option"
  flags :: uchar

definition finish :: "kind \<Rightarrow> nat \<Rightarrow> nat \<times> int \<times> uchar \<Rightarrow> result" where
  "finish k nptr = (\<lambda>(s, val, flags).
     let val = (if flags AND FLAG_NEG \<noteq> 0 then to_type k (- val) else val);
         val = (if flags AND FLAG_OFLOW \<noteq> 0 then
                  (if is_signed k
                   then to_type k (to_utype k (to_utype k (strtoi_max k) + uint (flags AND FLAG_NEG)))
                   else strtoi_max k)
                else val)
     in \<lparr>val = val,
         endptr = (if flags AND FLAG_ANY \<noteq> 0 then s - 1 else nptr),
         err = (if flags AND FLAG_OFLOW \<noteq> 0 then Some ERANGE else None),
         flags = flags\<rparr>)"

text \<open>
  Everything before the loop: spaces, sign and base indication. The result is the
  flags, the base, the \<^verbatim>\<open>nptr\<close> to report when no digit follows, \<^verbatim>\<open>i\<close> and \<^verbatim>\<open>s\<close>.
\<close>

definition prelude :: "uchar list \<Rightarrow> uchar \<Rightarrow> uchar \<times> uchar \<times> nat \<times> uchar \<times> nat" where
  "prelude m base =
     (let (flags, i, s) = parse_sign m (skip_spaces m 0) in (flags, base_prefix m base (i, s)))"

definition strtoi :: "kind \<Rightarrow> uchar list \<Rightarrow> int \<Rightarrow> result option" where
  "strtoi k nptr ibase =
     (if to_unsigned_int k ibase > 36 \<or> ibase = 1
      then Some \<lparr>val = 0, endptr = 0, err = Some EINVAL, flags = 0\<rparr>
      else
        let (flags, base, nptr', i, s) = prelude nptr (word_of_int ibase)
        in map_option (finish k nptr')
             (accumulate k base (cutoff k flags base) (cutlim k flags base) nptr s i (0, flags)))"

section \<open>The result triple of the specification\<close>

text \<open>
  The specification speaks of a value, a count of consumed characters and a status.
  The value is \<open>val\<close> and the count is \<open>endptr\<close>. The status is InvalidConfiguration
  when \<^verbatim>\<open>EINVAL\<close> was stored, NoDigitsConsumed when \<^verbatim>\<open>FLAG_ANY\<close> is clear at return,
  OutOfRange when \<^verbatim>\<open>FLAG_OFLOW\<close> is set (\<^verbatim>\<open>ERANGE\<close> was stored), and Ok otherwise.
\<close>

datatype status = Ok | InvalidConfiguration | NoDigitsConsumed | OutOfRange

definition status_of :: "result \<Rightarrow> status" where
  "status_of r =
     (if err r = Some EINVAL then InvalidConfiguration
      else if flags r AND FLAG_ANY = 0 then NoDigitsConsumed
      else if flags r AND FLAG_OFLOW \<noteq> 0 then OutOfRange
      else Ok)"

text \<open>A string literal as bytes.\<close>

definition bytes :: "string \<Rightarrow> uchar list" where
  "bytes = map of_char"

text \<open>
  Positions in the input: the first character that is not white space, the
  first character after the optional sign, and whether that sign is a minus.
\<close>

definition first_nonspace :: "uchar list \<Rightarrow> nat" where
  "first_nonspace m = length (takeWhile ISSPACE m)"

definition body_start :: "uchar list \<Rightarrow> nat" where
  "body_start m =
     (if load m (first_nonspace m) = 45 \<or> load m (first_nonspace m) = 43
      then first_nonspace m + 1 else first_nonspace m)"

definition negative :: "uchar list \<Rightarrow> bool" where
  "negative m = (load m (first_nonspace m) = 45)"

text \<open>
  Whether a hexadecimal prefix is taken, the base the digits are read in, and the
  offset of the first character offered to the loop.
\<close>

definition hex_prefix :: "uchar list \<Rightarrow> int \<Rightarrow> bool" where
  "hex_prefix m ibase =
     ((ibase = 0 \<or> ibase = 16) \<and> load m (body_start m) = 48 \<and>
      (load m (body_start m + 1) = 120 \<or> load m (body_start m + 1) = 88))"

definition effective_base :: "uchar list \<Rightarrow> int \<Rightarrow> uchar" where
  "effective_base m ibase =
     (if hex_prefix m ibase then 16
      else if ibase = 0 then (if load m (body_start m) = 48 then 8 else 10)
      else word_of_int ibase)"

definition digits_start :: "uchar list \<Rightarrow> int \<Rightarrow> nat" where
  "digits_start m ibase = (if hex_prefix m ibase then body_start m + 2 else body_start m)"

text \<open>The greatest magnitude that is accumulated without the overflow flag.\<close>

definition limit :: "kind \<Rightarrow> bool \<Rightarrow> int" where
  "limit k neg = (if is_signed k \<and> neg then 2 ^ (bits k - 1) else strtoi_max k)"

text \<open>The characters from offset \<open>p\<close> on that the loop accepts as digits of \<open>base\<close>.\<close>

definition digit_run :: "uchar \<Rightarrow> uchar list \<Rightarrow> nat \<Rightarrow> uchar list" where
  "digit_run base m p = takeWhile (\<lambda>c. digit_of c < base) (drop p m)"

text \<open>The number a sequence of digit values denotes in base \<open>b\<close>, continuing from \<open>v\<close>.\<close>

definition num :: "int \<Rightarrow> int \<Rightarrow> int list \<Rightarrow> int" where
  "num b v ds = foldl (\<lambda>a d. a * b + d) v ds"

text \<open>
  The canonical rendering of an integer in base \<open>b\<close>: its digits without leading
  zeros (a single \<^verbatim>\<open>0\<close> for zero), letters in upper or lower case, and a leading
  \<^verbatim>\<open>-\<close> for a negative number.
\<close>

function digits :: "int \<Rightarrow> int \<Rightarrow> int list" where
  "digits b n = (if b < 2 \<or> n < b then [n] else digits b (n div b) @ [n mod b])"
  by pat_completeness auto
termination
  by (relation "measure (\<lambda>(b, n). nat n)") (auto simp: int_div_less_self)

declare digits.simps [simp del]

definition digit_char :: "bool \<Rightarrow> int \<Rightarrow> uchar" where
  "digit_char upper d = word_of_int (if d < 10 then 48 + d else if upper then 55 + d else 87 + d)"

definition render :: "bool \<Rightarrow> int \<Rightarrow> int \<Rightarrow> uchar list" where
  "render upper b v =
     (if v < 0 then 45 # map (digit_char upper) (digits b (- v))
      else map (digit_char upper) (digits b v))"

text \<open>A result whose reported end is moved by \<open>n\<close> characters unless it is the start.\<close>

definition move_end :: "nat \<Rightarrow> result \<Rightarrow> result" where
  "move_end n r = r\<lparr>endptr := (if endptr r = 0 then 0 else endptr r + n)\<rparr>"

text \<open>
  Three instances: \<^verbatim>\<open>long\<close> and \<^verbatim>\<open>unsigned long\<close> of 32 bits, the latter compiled
  without and with the overflow builtins.
\<close>

definition long32 :: kind where
  "long32 = \<lparr>bits = 32, is_signed = True, have_builtin_overflow = True, int_bits = 32\<rparr>"

definition ulong32 :: kind where
  "ulong32 = \<lparr>bits = 32, is_signed = False, have_builtin_overflow = False, int_bits = 32\<rparr>"

definition ulong32_builtin :: kind where
  "ulong32_builtin = \<lparr>bits = 32, is_signed = False, have_builtin_overflow = True, int_bits = 32\<rparr>"

section \<open>What the phases compute\<close>

subsection \<open>Spaces, sign and base indication\<close>

lemma load_append: "load (pre @ m) (length pre + p) = load m p"
  by (simp add: load_def nth_append)

lemma ISSPACE_0: "\<not> ISSPACE 0" by (simp add: ISSPACE_def)

lemma skip_spaces_eq:
  "skip_spaces m s = (load m (s + length (takeWhile ISSPACE (drop s m))), Suc (s + length (takeWhile ISSPACE (drop s m))))"
proof (induction m s rule: skip_spaces.induct)
  case (1 m s)
  show ?case
  proof (cases "ISSPACE (load m s)")
    case True
    then have lt: "s < length m" by (auto simp: load_def ISSPACE_0 split: if_splits)
    then have d: "drop s m = m ! s # drop (Suc s) m" by (simp add: Cons_nth_drop_Suc)
    from True lt have sp: "ISSPACE (m ! s)" by (simp add: load_def)
    from 1 [OF refl True] d sp show ?thesis
      by (subst skip_spaces.simps) (simp add: True)
  next
    case False
    have "takeWhile ISSPACE (drop s m) = []"
    proof (cases "s < length m")
      case True
      with False show ?thesis by (simp add: Cons_nth_drop_Suc [symmetric] load_def)
    qed simp
    with False show ?thesis by (subst skip_spaces.simps) simp
  qed
qed

lemma skip_spaces_0: "skip_spaces m 0 = (load m (first_nonspace m), Suc (first_nonspace m))"
  by (simp add: skip_spaces_eq first_nonspace_def)

lemma prelude_eq:
  "prelude m base =
     (if negative m then FLAG_NEG else 0,
      base_prefix m base (load m (body_start m), Suc (body_start m)))"
  by (simp add: prelude_def skip_spaces_0 parse_sign_def body_start_def negative_def)

subsection \<open>The loop returns\<close>

text \<open>
  The terminator is classified as 208, above every base the loop is entered with, so
  the loop leaves at the end of the input at the latest: it returns, with the run of
  accepted characters consumed and the loop body folded over that run.
\<close>

lemma digit_of_0: "digit_of 0 = 208"
  by (simp add: digit_of_def TOLOW_def CASE_CONVERT_def)

lemma accumulate_run:
  assumes "base \<le> 208"
  shows "accumulate k base co cl m (Suc p) (load m p) vf =
           Some (Suc p + length (digit_run base m p),
                 add_digits k base co cl (digit_run base m p) vf)"
  unfolding add_digits_def
proof (induction "length m - p" arbitrary: p vf)
  case 0
  then have "load m p = 0" "drop p m = []" by (simp_all add: load_def)
  with assms show ?case
    by (subst accumulate.simps) (simp add: digit_of_0 digit_run_def)
next
  case (Suc n)
  then have lt: "p < length m" by simp
  then have d: "drop p m = m ! p # drop (Suc p) m" and l: "load m p = m ! p"
    by (simp_all add: Cons_nth_drop_Suc load_def)
  show ?case
  proof (cases "digit_of (m ! p) < base")
    case True
    from Suc(2) have "n = length m - Suc p" by simp
    from Suc(1) [OF this] True show ?thesis
      by (subst accumulate.simps) (simp add: l d digit_run_def not_le [symmetric])
  next
    case False
    then have "base \<le> digit_of (m ! p)" by simp
    with False show ?thesis
      by (subst accumulate.simps) (simp add: l d digit_run_def)
  qed
qed

subsection \<open>The base and the characters\<close>

lemma uint_base: "0 \<le> b \<Longrightarrow> b \<le> 255 \<Longrightarrow> uint (word_of_int b :: uchar) = b"
  by (simp add: uint_word_of_int_eq take_bit_int_eq_self)

lemma base_check:
  assumes "kind_ok k" "b = 0 \<or> (2 \<le> b \<and> b \<le> 36)"
  shows "\<not> (to_unsigned_int k b > 36 \<or> b = 1)"
proof -
  from assms(1) have "(2::int) ^ 16 \<le> 2 ^ int_bits k"
    by (intro power_increasing) (auto simp: kind_ok_def)
  with assms(2) have "b mod 2 ^ int_bits k = b" by (intro mod_pos_pos_trivial) auto
  with assms(2) show ?thesis by (auto simp: to_unsigned_int_def)
qed

lemma uchar_all:
  assumes "\<forall>n\<in>set [0..<256]. P (word_of_nat n :: uchar)"
  shows "P c"
proof -
  have "unat c < 2 ^ LENGTH(8)" by (rule unsigned_less)
  then have "unat c \<in> set [0..<256]" by simp
  with assms have "P (word_of_nat (unat c))" by blast
  then show ?thesis by simp
qed

lemma TOLOW_x: "TOLOW c = 120 \<longleftrightarrow> c = 120 \<or> c = 88"
  by (rule uchar_all [of "\<lambda>c. TOLOW c = 120 \<longleftrightarrow> c = 120 \<or> c = 88"]) code_simp

lemma ISSPACE_cases: "ISSPACE c \<Longrightarrow> c = 9 \<or> c = 10 \<or> c = 11 \<or> c = 12 \<or> c = 13 \<or> c = 32"
  by (auto simp: ISSPACE_def word_le_nat_alt word_unat_eq_iff)

lemma digit_not_space:
  assumes "digit_of c \<le> 36"
  shows "\<not> ISSPACE c" "c \<noteq> 45" "c \<noteq> 43" "c \<noteq> 0"
  using assms by (auto dest!: ISSPACE_cases simp: digit_of_def TOLOW_def CASE_CONVERT_def)

subsection \<open>The call as a whole\<close>

lemma prelude_spec:
  assumes "ibase = 0 \<or> (2 \<le> ibase \<and> ibase \<le> 36)"
  shows "prelude m (word_of_int ibase) =
     (if negative m then FLAG_NEG else 0, effective_base m ibase,
      if hex_prefix m ibase then body_start m + 1 else 0,
      load m (digits_start m ibase), Suc (digits_start m ibase))"
proof -
  from assms have u: "uint (word_of_int ibase :: uchar) = ibase" by (intro uint_base) auto
  have z: "(word_of_int ibase :: uchar) = 0 \<longleftrightarrow> ibase = 0"
    using u by (simp add: word_uint_eq_iff)
  have h: "(word_of_int ibase :: uchar) = 16 \<longleftrightarrow> ibase = 16"
    using u by (simp add: word_uint_eq_iff)
  show ?thesis
    by (simp add: prelude_eq base_prefix_def hex_prefix_def effective_base_def digits_start_def
        TOLOW_x z h)
qed

lemma digit_run_Nil: "\<not> digit_of (load m p) < base \<Longrightarrow> digit_run base m p = []"
  by (cases "p < length m") (simp_all add: digit_run_def load_def Cons_nth_drop_Suc [symmetric])

lemma effective_base_range:
  assumes "ibase = 0 \<or> (2 \<le> ibase \<and> ibase \<le> 36)"
  shows "2 \<le> effective_base m ibase" "effective_base m ibase \<le> 36"
proof -
  from assms have "uint (word_of_int ibase :: uchar) = ibase" by (intro uint_base) auto
  with assms show "2 \<le> effective_base m ibase" "effective_base m ibase \<le> 36"
    by (auto simp: effective_base_def word_le_def)
qed

lemma strtoi_unfold:
  assumes "kind_ok k" "ibase = 0 \<or> (2 \<le> ibase \<and> ibase \<le> 36)"
  shows "strtoi k m ibase =
           Some (finish k (if hex_prefix m ibase then body_start m + 1 else 0)
             (Suc (digits_start m ibase +
                   length (digit_run (effective_base m ibase) m (digits_start m ibase))),
              add_digits k (effective_base m ibase)
                (cutoff k (if negative m then FLAG_NEG else 0) (effective_base m ibase))
                (cutlim k (if negative m then FLAG_NEG else 0) (effective_base m ibase))
                (digit_run (effective_base m ibase) m (digits_start m ibase))
                (0, if negative m then FLAG_NEG else 0)))"
proof -
  from effective_base_range(2) [OF assms(2), of m] have "effective_base m ibase \<le> 208"
    by (simp add: word_le_def)
  from accumulate_run [OF this] base_check [OF assms] show ?thesis
    by (simp add: strtoi_def prelude_spec [OF assms(2)])
qed

subsection \<open>The flags\<close>

lemma add_digits_Nil: "add_digits k base co cl [] vf = vf"
  by (simp add: add_digits_def)

lemma add_digits_Cons:
  "add_digits k base co cl (c # cs) vf = add_digits k base co cl cs (add_digit k base co cl (digit_of c) vf)"
  by (simp add: add_digits_def)

lemma add_digits_snoc:
  "add_digits k base co cl (cs @ [c]) vf = add_digit k base co cl (digit_of c) (add_digits k base co cl cs vf)"
  by (simp add: add_digits_def)

text \<open>The flags: every digit sets \<^verbatim>\<open>FLAG_ANY\<close>, \<^verbatim>\<open>FLAG_NEG\<close> never changes, \<^verbatim>\<open>FLAG_OFLOW\<close> stays.\<close>

lemma add_digit_flags:
  "snd (add_digit k base co cl d (v, f)) AND FLAG_ANY \<noteq> 0"
  "snd (add_digit k base co cl d (v, f)) AND FLAG_NEG = f AND FLAG_NEG"
  "f AND FLAG_OFLOW \<noteq> 0 \<Longrightarrow> snd (add_digit k base co cl d (v, f)) AND FLAG_OFLOW \<noteq> 0"
  by (simp_all add: add_digit_def FLAG_ANY_def FLAG_NEG_def FLAG_OFLOW_def
      bit.conj_disj_distrib2 or_eq_0_iff)

lemma add_digits_neg: "snd (add_digits k base co cl cs vf) AND FLAG_NEG = snd vf AND FLAG_NEG"
proof (induction cs arbitrary: vf)
  case Nil
  show ?case by (simp add: add_digits_Nil)
next
  case (Cons c cs)
  show ?case
    by (cases vf) (simp add: add_digits_Cons Cons.IH add_digit_flags)
qed

lemma add_digits_any: "cs \<noteq> [] \<Longrightarrow> snd (add_digits k base co cl cs vf) AND FLAG_ANY \<noteq> 0"
proof (induction cs arbitrary: vf rule: rev_induct)
  case Nil
  then show ?case by simp
next
  case (snoc c cs)
  show ?case
    by (cases "add_digits k base co cl cs vf") (simp add: add_digits_snoc add_digit_flags)
qed

subsection \<open>Conversions, and an input without digits\<close>

lemma pow2_bits: "kind_ok k \<Longrightarrow> (2::int) ^ bits k = 2 * 2 ^ (bits k - 1)"
proof -
  assume "kind_ok k"
  then have "bits k = Suc (bits k - 1)" by (simp add: kind_ok_def)
  then show ?thesis by (metis power_Suc)
qed

lemma to_type_id:
  assumes "kind_ok k" "strtoi_min k \<le> x" "x \<le> strtoi_max k"
  shows "to_type k x = x"
proof (cases "is_signed k")
  case True
  with assms pow2_bits [OF assms(1)]
  have "0 \<le> x + 2 ^ (bits k - 1)" "x + 2 ^ (bits k - 1) < 2 ^ bits k"
    by (simp_all add: strtoi_min_def strtoi_max_def)
  then have "(x + 2 ^ (bits k - 1)) mod 2 ^ bits k = x + 2 ^ (bits k - 1)"
    by (rule mod_pos_pos_trivial)
  with True show ?thesis by (simp add: to_type_def)
next
  case False
  with assms have "0 \<le> x" "x < 2 ^ bits k" by (simp_all add: strtoi_min_def strtoi_max_def)
  then have "x mod 2 ^ bits k = x" by (rule mod_pos_pos_trivial)
  with False show ?thesis by (simp add: to_type_def)
qed

lemma min_le_0: "strtoi_min k \<le> 0" and max_ge_0: "0 \<le> strtoi_max k"
  by (simp_all add: strtoi_min_def strtoi_max_def)

lemma finish_no_digits:
  assumes "kind_ok k" "f = 0 \<or> f = FLAG_NEG"
  shows "finish k n (s, 0, f) = \<lparr>val = 0, endptr = n, err = None, flags = f\<rparr>"
  using assms to_type_id [OF assms(1) min_le_0 max_ge_0]
  by (auto simp: finish_def FLAG_NEG_def FLAG_ANY_def FLAG_OFLOW_def)

lemma strtoi_zero_run:
  assumes "kind_ok k" "ibase = 0 \<or> (2 \<le> ibase \<and> ibase \<le> 36)"
    and "effective_base m ibase \<le> digit_of (load m (digits_start m ibase))"
  shows "strtoi k m ibase =
           Some \<lparr>val = 0, endptr = (if hex_prefix m ibase then body_start m + 1 else 0),
                 err = None, flags = (if negative m then FLAG_NEG else 0)\<rparr>"
proof -
  from assms(3) have "digit_run (effective_base m ibase) m (digits_start m ibase) = []"
    by (intro digit_run_Nil) simp
  then show ?thesis
    by (simp add: strtoi_unfold [OF assms(1,2)] add_digits_Nil finish_no_digits [OF assms(1)])
qed

subsection \<open>Characters put in front of the input\<close>

lemma digit_run_append: "digit_run base (pre @ m) (length pre + p) = digit_run base m p"
  by (simp add: digit_run_def)

lemma add_digits_flags_Nil_any:
  "f AND FLAG_ANY = 0 \<Longrightarrow> (snd (add_digits k base co cl cs (v, f)) AND FLAG_ANY \<noteq> 0) = (cs \<noteq> [])"
  using add_digits_any [of cs k base co cl "(v, f)"] by (cases cs) (simp_all add: add_digits_Nil)

lemma finish_endptr:
  "endptr (finish k n (s, v, f)) = (if f AND FLAG_ANY \<noteq> 0 then s - 1 else n)"
  "err (finish k n (s, v, f)) = err (finish k n' (s', v, f))"
  "val (finish k n (s, v, f)) = val (finish k n' (s', v, f))"
  "flags (finish k n (s, v, f)) = f"
  by (simp_all add: finish_def Let_def)

lemma strtoi_shift:
  assumes "kind_ok k" "ibase = 0 \<or> (2 \<le> ibase \<and> ibase \<le> 36)"
    and b: "body_start (pre @ m) = length pre + body_start m"
    and n: "negative (pre @ m) = negative m"
  shows "strtoi k (pre @ m) ibase = map_option (move_end (length pre)) (strtoi k m ibase)"
proof -
  have l: "\<And>j. load (pre @ m) (length pre + body_start m + j) = load m (body_start m + j)"
    "load (pre @ m) (length pre + body_start m) = load m (body_start m)"
    using load_append [of pre m] by (simp_all add: add.assoc)
  have h: "hex_prefix (pre @ m) ibase = hex_prefix m ibase"
    using l(1) [of 1] by (simp add: hex_prefix_def b l(2))
  have e: "effective_base (pre @ m) ibase = effective_base m ibase"
    by (simp add: effective_base_def h b l)
  have d: "digits_start (pre @ m) ibase = length pre + digits_start m ibase"
    by (simp add: digits_start_def h b)
  let ?f = "if negative m then FLAG_NEG else 0"
  let ?b = "effective_base m ibase"
  let ?run = "digit_run ?b m (digits_start m ibase)"
  obtain v f where vf: "add_digits k ?b (cutoff k ?f ?b) (cutlim k ?f ?b) ?run (0, ?f) = (v, f)"
    by (cases "add_digits k ?b (cutoff k ?f ?b) (cutlim k ?f ?b) ?run (0, ?f)")
  have "?f AND FLAG_ANY = 0" by (simp add: FLAG_NEG_def FLAG_ANY_def)
  from add_digits_flags_Nil_any [OF this, of k ?b "cutoff k ?f ?b" "cutlim k ?f ?b" ?run 0] vf
  have any: "(f AND FLAG_ANY \<noteq> 0) = (?run \<noteq> [])" by simp
  have "finish k (if hex_prefix m ibase then length pre + body_start m + 1 else 0)
          (Suc (length pre + digits_start m ibase + length ?run), v, f) =
        move_end (length pre) (finish k (if hex_prefix m ibase then body_start m + 1 else 0)
          (Suc (digits_start m ibase + length ?run), v, f))"
    using any by (auto simp: finish_def Let_def move_end_def)
  then show ?thesis
    by (cases "hex_prefix m ibase")
       (simp_all add: strtoi_unfold [OF assms(1,2)] h e d n b digit_run_append vf)
qed

lemma first_nonspace_append:
  assumes "\<forall>c\<in>set ws. ISSPACE c"
  shows "first_nonspace (ws @ m) = length ws + first_nonspace m"
  using assms by (simp add: first_nonspace_def takeWhile_append2)

lemma first_nonspace_0: "\<not> ISSPACE (load m 0) \<Longrightarrow> first_nonspace m = 0"
  by (cases m) (simp_all add: first_nonspace_def load_def)

subsection \<open>The overflow test\<close>

text \<open>
  Without the builtins the flag is raised exactly when the new magnitude exceeds the
  limit of the kind and sign; with them, when it exceeds the maximum of the unsigned
  kind.
\<close>

lemma pow2_ge:
  assumes "kind_ok k"
  shows "(2::int) ^ 15 \<le> 2 ^ (bits k - 1)" "(2::int) ^ 15 \<le> 2 ^ bits k"
proof -
  from assms have "15 \<le> bits k - 1" "15 \<le> bits k" by (auto simp: kind_ok_def)
  then show "(2::int) ^ 15 \<le> 2 ^ (bits k - 1)" and "(2::int) ^ 15 \<le> 2 ^ bits k"
    by (simp_all only: power_increasing [of _ _ "2::int"] one_le_numeral)
qed

lemma ucutoff_limit:
  assumes "kind_ok k" "f = 0 \<or> f = FLAG_NEG"
  shows "ucutoff k f = limit k (f \<noteq> 0)"
proof (cases "is_signed k")
  case True
  define h :: int where "h = 2 ^ (bits k - 1)"
  have p: "(2::int) ^ bits k = 2 * h" unfolding h_def by (rule pow2_bits [OF assms(1)])
  have h: "0 < h" by (simp add: h_def)
  have "(- h) mod (2 * h) = (- h + 2 * h) mod (2 * h)" by (simp only: mod_add_self2)
  also have "\<dots> = h" using h by (simp add: mod_pos_pos_trivial)
  finally have a: "(- h) mod (2 * h) = h" .
  have b: "h mod (2 * h) = h" "(h - 1) mod (2 * h) = h - 1"
    using h by (simp_all add: mod_pos_pos_trivial)
  have tu: "to_utype k x = x mod (2 * h)" for x by (simp add: to_utype_def p)
  have mn: "strtoi_min k = - h" "strtoi_max k = h - 1"
    using True by (simp_all add: strtoi_min_def strtoi_max_def h_def)
  have lim: "limit k neg = (if neg then h else h - 1)" for neg
    using True by (simp add: limit_def strtoi_max_def h_def)
  from True assms(2) show ?thesis
    by (auto simp: ucutoff_def tu mn lim a b FLAG_NEG_def)
next
  case False
  then show ?thesis by (simp add: ucutoff_def limit_def)
qed

lemma limit_bounds:
  assumes "kind_ok k"
  shows "strtoi_max k \<le> limit k neg" "limit k neg \<le> strtoi_max k + 1"
    "2 ^ 15 \<le> strtoi_max k + 1"
  using pow2_ge [OF assms] by (auto simp: limit_def strtoi_max_def)

text \<open>One digit that fits: no flag but \<^verbatim>\<open>FLAG_ANY\<close>, and the exact value.\<close>

lemma cutoff_cutlim:
  assumes k: "kind_ok k" and f0: "f0 = 0 \<or> f0 = FLAG_NEG" and b: "2 \<le> base" "base \<le> 36"
  shows "cutoff k f0 base = limit k (f0 \<noteq> 0) div uint base"
    "cutlim k f0 base = limit k (f0 \<noteq> 0) mod uint base"
proof -
  let ?U = "limit k (f0 \<noteq> 0)"
  from b have b': "2 \<le> uint base" "uint base \<le> 36" by (simp_all add: word_le_def)
  have U0: "0 \<le> ?U" using limit_bounds(1) [OF k, of "f0 \<noteq> 0"] max_ge_0 [of k] by simp
  have "?U div uint base \<le> ?U div 2"
    using b' U0 by (intro zdiv_mono2) simp_all
  also have "\<dots> \<le> strtoi_max k"
    using limit_bounds(2) [OF k, of "f0 \<noteq> 0"] limit_bounds(3) [OF k] by simp
  finally have "?U div uint base \<le> strtoi_max k" .
  moreover have "0 \<le> ?U div uint base" using U0 b' by (simp add: pos_imp_zdiv_nonneg_iff)
  moreover have "strtoi_min k \<le> 0" by (rule min_le_0)
  ultimately have "to_type k (?U div uint base) = ?U div uint base"
    by (intro to_type_id [OF k]) simp_all
  then show "cutoff k f0 base = ?U div uint base"
    by (simp add: cutoff_def ucutoff_limit [OF k f0])
  show "cutlim k f0 base = ?U mod uint base"
    by (simp add: cutlim_def ucutoff_limit [OF k f0])
qed

lemma cut_test:
  fixes U B v D :: int
  assumes "2 \<le> B" "0 \<le> D" "D < B" "0 \<le> v"
  shows "(v > U div B \<or> (v = U div B \<and> D > U mod B)) \<longleftrightarrow> v * B + D > U"
proof -
  define q r where "q = U div B" and "r = U mod B"
  have U: "U = q * B + r" by (simp add: q_def r_def)
  have m: "0 \<le> r" "r < B" using assms(1) by (simp_all add: r_def)
  have "(v > q \<or> (v = q \<and> D > r)) \<longleftrightarrow> v * B + D > q * B + r"
  proof (cases "v \<le> q")
    case False
    then have "q + 1 \<le> v" by simp
    then have "(q + 1) * B \<le> v * B" using assms(1) by (intro mult_right_mono) simp_all
    then have "q * B + B \<le> v * B" by (simp add: algebra_simps)
    with m assms(2) have "q * B + r < v * B + D" by linarith
    with False show ?thesis by simp
  next
    case True
    show ?thesis
    proof (cases "v = q")
      case True
      then show ?thesis by simp
    next
      case False
      with True have "v + 1 \<le> q" by simp
      then have "(v + 1) * B \<le> q * B" using assms(1) by (intro mult_right_mono) simp_all
      then have "v * B + B \<le> q * B" by (simp add: algebra_simps)
      with m assms(3) have "v * B + D \<le> q * B + r" by linarith
      with True False show ?thesis by simp
    qed
  qed
  then show ?thesis by (simp add: U [symmetric]) (simp add: q_def r_def)
qed

lemma base_as_int:
  fixes base d :: uchar
  assumes "2 \<le> base" "base \<le> 36" "d < base"
  shows "2 \<le> uint base" "uint base \<le> 36" "uint d < uint base"
  using assms by (simp_all add: word_le_def word_less_def)

lemma add_digit_fits:
  assumes k: "kind_ok k" and f0: "f0 = 0 \<or> f0 = FLAG_NEG"
    and b: "2 \<le> base" "base \<le> 36" and d: "d < base"
    and v: "0 \<le> v"
    and fits: "v * uint base + uint d \<le> limit k (f0 \<noteq> 0)"
  shows "add_digit k base (cutoff k f0 base) (cutlim k f0 base) d (v, f) =
           (to_type k (v * uint base + uint d), f OR FLAG_ANY)"
proof (cases "USE_OVERFLOW k")
  case True
  then have u: "\<not> is_signed k" by (simp add: USE_OVERFLOW_def)
  note bd = base_as_int [OF b d]
  have d': "0 \<le> uint d" by simp
  from v bd have p: "0 \<le> v * uint base" by simp
  from fits u have "v * uint base + uint d \<le> strtoi_max k" by (simp add: limit_def)
  with d' have "v * uint base \<le> strtoi_max k" by linarith
  with p u have 1: "to_type k (v * uint base) = v * uint base"
    by (intro to_type_id [OF k]) (simp_all add: strtoi_min_def)
  from p d' have "0 \<le> v * uint base + uint d" by linarith
  with \<open>v * uint base + uint d \<le> strtoi_max k\<close> u
  have 2: "to_type k (v * uint base + uint d) = v * uint base + uint d"
    by (intro to_type_id [OF k]) (simp_all add: strtoi_min_def)
  from True 1 2 show ?thesis by (simp add: add_digit_def)
next
  case False
  note bd = base_as_int [OF b d]
  have d': "0 \<le> uint d" by simp
  from cut_test [OF bd(1) d' bd(3) v, of "limit k (f0 \<noteq> 0)"] fits
  have "\<not> (v > cutoff k f0 base \<or> (v = cutoff k f0 base \<and> uint d > cutlim k f0 base))"
    by (simp add: cutoff_cutlim [OF k f0 b])
  with False show ?thesis by (auto simp: add_digit_def)
qed

lemma to_type_over:
  assumes "kind_ok k" "\<not> is_signed k" "strtoi_max k < x"
  shows "to_type k x \<noteq> x"
proof -
  have "x mod 2 ^ bits k < 2 ^ bits k" by simp
  moreover from assms(2,3) have "2 ^ bits k \<le> x" by (simp add: strtoi_max_def)
  ultimately have "x mod 2 ^ bits k < x" by linarith
  with assms(2) show ?thesis by (simp add: to_type_def)
qed

lemma add_digit_over:
  assumes k: "kind_ok k" and f0: "f0 = 0 \<or> f0 = FLAG_NEG"
    and b: "2 \<le> base" "base \<le> 36" and d: "d < base"
    and v: "0 \<le> v"
    and over: "limit k (f0 \<noteq> 0) < v * uint base + uint d"
  shows "snd (add_digit k base (cutoff k f0 base) (cutlim k f0 base) d (v, f)) =
           f OR FLAG_OFLOW OR FLAG_ANY"
proof (cases "USE_OVERFLOW k")
  case True
  then have u: "\<not> is_signed k" by (simp add: USE_OVERFLOW_def)
  from over u have "strtoi_max k < v * uint base + uint d" by (simp add: limit_def)
  from to_type_over [OF k u this] True show ?thesis by (simp add: add_digit_def)
next
  case False
  note bd = base_as_int [OF b d]
  have d': "0 \<le> uint d" by simp
  from cut_test [OF bd(1) d' bd(3) v, of "limit k (f0 \<noteq> 0)"] over
  have "v > cutoff k f0 base \<or> (v = cutoff k f0 base \<and> uint d > cutlim k f0 base)"
    by (simp add: cutoff_cutlim [OF k f0 b])
  with False show ?thesis by (auto simp: add_digit_def FLAG_OFLOW_def or.assoc)
qed

subsection \<open>Digits that fit\<close>

lemma num_Nil: "num b v [] = v" and num_Cons: "num b v (d # ds) = num b (v * b + d) ds"
  and num_snoc: "num b v (ds @ [d]) = num b v ds * b + d"
  by (simp_all add: num_def)

lemma num_ge:
  assumes "1 \<le> b" "\<forall>d\<in>set ds. 0 \<le> d" "0 \<le> v"
  shows "v \<le> num b v ds"
  using assms
proof (induction ds arbitrary: v)
  case Nil
  show ?case by (simp add: num_Nil)
next
  case (Cons d ds)
  from Cons.prems have "v * 1 \<le> v * b" by (intro mult_left_mono) simp_all
  with Cons.prems have "v \<le> v * b + d" by simp
  moreover from Cons.prems this have "v * b + d \<le> num b (v * b + d) ds"
    by (intro Cons.IH) simp_all
  ultimately show ?case by (simp add: num_Cons)
qed

lemma add_digits_fits:
  assumes k: "kind_ok k" and f0: "f0 = 0 \<or> f0 = FLAG_NEG" and b: "2 \<le> base" "base \<le> 36"
    and "\<forall>c\<in>set cs. digit_of c < base" "cs \<noteq> []" "0 \<le> v" "v \<le> strtoi_max k"
    and "num (uint base) v (map (\<lambda>c. uint (digit_of c)) cs) \<le> limit k (f0 \<noteq> 0)"
  shows "add_digits k base (cutoff k f0 base) (cutlim k f0 base) cs (v, f) =
           (to_type k (num (uint base) v (map (\<lambda>c. uint (digit_of c)) cs)), f OR FLAG_ANY)"
  using assms(5-)
proof (induction cs arbitrary: v f)
  case Nil
  then show ?case by simp
next
  case (Cons c cs)
  let ?B = "uint base" and ?D = "uint (digit_of c)"
  let ?v = "v * ?B + ?D"
  let ?ds = "map (\<lambda>c. uint (digit_of c)) cs"
  from Cons.prems have c: "digit_of c < base" by simp
  note bd = base_as_int [OF b c]
  have D0: "0 \<le> ?D" by simp
  from Cons.prems bd have vB: "0 \<le> v * ?B" by simp
  with D0 have v0: "0 \<le> ?v" by linarith
  have nn: "\<forall>d\<in>set ?ds. 0 \<le> d" by simp
  from Cons.prems have le: "num ?B ?v ?ds \<le> limit k (f0 \<noteq> 0)" by (simp add: num_Cons)
  from num_ge [OF _ nn v0, of ?B] bd have "?v \<le> num ?B ?v ?ds" by simp
  with le have fit: "?v \<le> limit k (f0 \<noteq> 0)" by linarith
  note step = add_digit_fits [OF k f0 b c Cons.prems(3) fit]
  show ?case
  proof (cases "cs = []")
    case True
    then show ?thesis by (simp add: add_digits_Cons add_digits_Nil step num_Cons num_Nil)
  next
    case False
    then obtain c' cs' where cs: "cs = c' # cs'" by (cases cs) auto
    let ?w = "?v * ?B + uint (digit_of c')"
    have "0 \<le> ?v * ?B" using v0 bd by simp
    then have w0: "0 \<le> ?w" using uint_nonnegative [of "digit_of c'"] by linarith
    have "?v * 2 \<le> ?v * ?B" using v0 bd by (intro mult_left_mono) simp_all
    also have "\<dots> \<le> ?w" using uint_nonnegative [of "digit_of c'"] by linarith
    also have "?w \<le> num ?B ?w (map (\<lambda>c. uint (digit_of c)) cs')"
      using bd w0 by (intro num_ge) simp_all
    also have "\<dots> \<le> limit k (f0 \<noteq> 0)" using le by (simp add: cs num_Cons)
    also have "\<dots> \<le> strtoi_max k + 1" by (rule limit_bounds(2) [OF k])
    finally have "?v \<le> strtoi_max k" using limit_bounds(3) [OF k] by simp
    with v0 min_le_0 [of k] have id: "to_type k ?v = ?v"
      by (intro to_type_id [OF k]) simp_all
    from Cons.prems have "\<forall>c\<in>set cs. digit_of c < base" by simp
    from Cons.IH [OF this False v0 \<open>?v \<le> strtoi_max k\<close> le, of "f OR FLAG_ANY"]
    show ?thesis by (simp add: add_digits_Cons step id num_Cons or.assoc)
  qed
qed

lemma to_type_neg:
  assumes "kind_ok k"
  shows "to_type k (- to_type k x) = to_type k (- x)"
proof -
  define h :: int where "h = 2 ^ (bits k - 1)"
  have p: "(2::int) ^ bits k = 2 * h" unfolding h_def by (rule pow2_bits [OF assms])
  show ?thesis
  proof (cases "is_signed k")
    case True
    then have tt: "to_type k y = (y + h) mod (2 * h) - h" for y
      by (simp add: to_type_def p h_def)
    have "to_type k (- to_type k x) = (- ((x + h) mod (2 * h) - h) + h) mod (2 * h) - h"
      by (simp only: tt)
    also have "\<dots> = (2 * h - (x + h) mod (2 * h)) mod (2 * h) - h"
      by (simp add: algebra_simps)
    also have "\<dots> = (2 * h - (x + h)) mod (2 * h) - h"
      by (simp only: mod_diff_right_eq)
    also have "\<dots> = (- x + h) mod (2 * h) - h"
      by (simp add: algebra_simps)
    also have "\<dots> = to_type k (- x)"
      by (simp only: tt)
    finally show ?thesis .
  next
    case False
    have "(- (x mod (2 * h))) mod (2 * h) = (- x) mod (2 * h)" by (simp add: mod_minus_eq)
    with False show ?thesis by (simp add: to_type_def p)
  qed
qed

subsection \<open>A number up to the end of the input\<close>

lemma effective_base_explicit:
  assumes "2 \<le> b" "b \<le> 36"
  shows "effective_base m b = word_of_int b"
  using assms by (auto simp: effective_base_def hex_prefix_def)

lemma digit_of_x: "digit_of 120 = 33" "digit_of 88 = 33"
  by (simp_all add: digit_of_def TOLOW_def CASE_CONVERT_def)

text \<open>An input made of white space, an optional sign and digits up to its end.\<close>

lemma plain_number:
  assumes wf: "ibase = 0 \<or> (2 \<le> ibase \<and> ibase \<le> 36)"
    and ws: "\<forall>c\<in>set ws. ISSPACE c" and sg: "sg = [] \<or> sg = [43] \<or> sg = [45]"
    and cs: "cs \<noteq> []" "\<forall>c\<in>set cs. digit_of c < effective_base (ws @ sg @ cs) ibase"
  shows "negative (ws @ sg @ cs) = (sg = [45])"
    and "\<not> hex_prefix (ws @ sg @ cs) ibase"
    and "digits_start (ws @ sg @ cs) ibase = length ws + length sg"
    and "digit_run (effective_base (ws @ sg @ cs) ibase) (ws @ sg @ cs) (length ws + length sg) = cs"
    and "load (ws @ sg @ cs) (body_start (ws @ sg @ cs)) = hd cs"
proof -
  let ?m = "ws @ sg @ cs"
  let ?eb = "effective_base ?m ibase"
  from cs obtain c1 cs' where c1: "cs = c1 # cs'" by (cases cs) auto
  from cs(2) effective_base_range(2) [OF wf, of ?m] have "digit_of c1 \<le> 36"
    by (simp add: c1 word_le_def word_less_def)
  note not = digit_not_space [OF this]
  from sg not(1) have "\<not> ISSPACE (load (sg @ cs) 0)"
    by (auto simp: load_def c1 ISSPACE_def)
  then have "first_nonspace (sg @ cs) = 0" by (rule first_nonspace_0)
  with first_nonspace_append [OF ws, of "sg @ cs"] have fn: "first_nonspace ?m = length ws" by simp
  from load_append [of ws "sg @ cs" 0] have l0: "load ?m (length ws) = load (sg @ cs) 0" by simp
  have v0: "load (sg @ cs) 0 = (if sg = [] then c1 else hd sg)"
    using sg by (auto simp: load_def c1)
  have bs: "body_start ?m = length ws + length sg"
    unfolding body_start_def fn l0 v0 using sg not(2,3) by auto
  show "negative ?m = (sg = [45])"
    unfolding negative_def fn l0 v0 using sg not(2) by auto
  from load_append [of "ws @ sg" cs] have lc: "load ?m (length ws + length sg + j) = load cs j" for j
    by (simp add: add.assoc)
  from lc [of 0] have "load ?m (body_start ?m) = load cs 0" by (simp only: bs add_0_right)
  also have "\<dots> = hd cs" by (simp add: c1 load_def)
  finally show "load ?m (body_start ?m) = hd cs" .
  show nh: "\<not> hex_prefix ?m ibase"
  proof
    assume h: "hex_prefix ?m ibase"
    then have e: "?eb = 16" by (simp add: effective_base_def)
    from h lc [of 1] have x: "load cs 1 = 120 \<or> load cs 1 = 88" by (simp add: hex_prefix_def bs)
    then have "load cs 1 \<in> set cs" by (auto simp: load_def c1 split: if_splits)
    with cs(2) e have "digit_of (load cs 1) < 16" by simp
    with x show False by (auto simp: digit_of_x)
  qed
  then show "digits_start ?m ibase = length ws + length sg" by (simp add: digits_start_def bs)
  have "drop (length ws + length sg) ?m = cs" by simp
  with cs(2) show "digit_run ?eb ?m (length ws + length sg) = cs"
    by (simp add: digit_run_def takeWhile_eq_all_conv)
qed

lemma finish_number:
  assumes k: "kind_ok k" and f0: "f0 = 0 \<or> f0 = FLAG_NEG"
  shows "finish k n (Suc e, to_type k N, f0 OR FLAG_ANY) =
           \<lparr>val = to_type k (if f0 \<noteq> 0 then - N else N), endptr = e, err = None,
            flags = f0 OR FLAG_ANY\<rparr>"
  using f0 by (auto simp: finish_def FLAG_NEG_def FLAG_ANY_def FLAG_OFLOW_def to_type_neg [OF k])

lemma strtoi_number:
  assumes k: "kind_ok k" and wf: "ibase = 0 \<or> (2 \<le> ibase \<and> ibase \<le> 36)"
    and ws: "\<forall>c\<in>set ws. ISSPACE c" and sg: "sg = [] \<or> sg = [43] \<or> sg = [45]"
    and cs: "cs \<noteq> []" "\<forall>c\<in>set cs. digit_of c < effective_base (ws @ sg @ cs) ibase"
    and fits: "num (uint (effective_base (ws @ sg @ cs) ibase)) 0 (map (\<lambda>c. uint (digit_of c)) cs)
                 \<le> limit k (sg = [45])"
  shows "strtoi k (ws @ sg @ cs) ibase =
           Some \<lparr>val = to_type k ((if sg = [45] then - 1 else 1) *
                    num (uint (effective_base (ws @ sg @ cs) ibase)) 0 (map (\<lambda>c. uint (digit_of c)) cs)),
                 endptr = length (ws @ sg @ cs), err = None,
                 flags = (if sg = [45] then FLAG_NEG else 0) OR FLAG_ANY\<rparr>"
proof -
  let ?m = "ws @ sg @ cs"
  let ?eb = "effective_base ?m ibase"
  let ?f0 = "if sg = [45] then FLAG_NEG else 0 :: uchar"
  note pn = plain_number [OF wf ws sg cs]
  have f0: "?f0 = 0 \<or> ?f0 = FLAG_NEG" by simp
  have ne: "(?f0 \<noteq> 0) = (sg = [45])" by (simp add: FLAG_NEG_def)
  from fits have fits': "num (uint ?eb) 0 (map (\<lambda>c. uint (digit_of c)) cs) \<le> limit k (?f0 \<noteq> 0)"
    by (simp only: ne)
  note ad = add_digits_fits [OF k f0 effective_base_range [OF wf] cs(2,1) order_refl max_ge_0 fits']
  have "strtoi k ?m ibase =
      Some (finish k 0 (Suc (length ?m), to_type k (num (uint ?eb) 0 (map (\<lambda>c. uint (digit_of c)) cs)),
        ?f0 OR FLAG_ANY))"
    by (simp only: strtoi_unfold [OF k wf] pn ad if_False) (simp add: add.assoc)
  also have "\<dots> = Some \<lparr>val = to_type k ((if sg = [45] then - 1 else 1) *
                    num (uint ?eb) 0 (map (\<lambda>c. uint (digit_of c)) cs)),
                 endptr = length ?m, err = None, flags = ?f0 OR FLAG_ANY\<rparr>"
    by (simp only: finish_number [OF k f0] ne) simp
  finally show ?thesis .
qed

subsection \<open>Canonical renderings\<close>

lemma digit_char_table:
  "\<forall>d\<in>set [0..35]. \<forall>up\<in>{True, False}. uint (digit_of (digit_char up d)) = d"
  by code_simp

lemma digit_char_value:
  assumes "0 \<le> d" "d < 36"
  shows "uint (digit_of (digit_char up d)) = d"
proof -
  from assms have "d \<in> set [0..35]" by simp
  with digit_char_table show ?thesis by (cases up) blast+
qed

lemma digits_props:
  assumes "2 \<le> b" "0 \<le> n"
  shows "digits b n \<noteq> []" "\<forall>d\<in>set (digits b n). 0 \<le> d \<and> d < b" "num b 0 (digits b n) = n"
  using assms
proof (induction b n rule: digits.induct)
  case (1 b n)
  {
    case 1
    then show ?case by (subst digits.simps) simp
  next
    case 2
    show ?case
    proof (cases "n < b")
      case True
      with 2 show ?thesis by (subst digits.simps) simp
    next
      case False
      with 2 have "0 \<le> n div b" by (simp add: pos_imp_zdiv_nonneg_iff)
      with "1.IH"(2) False 2 have "\<forall>d\<in>set (digits b (n div b)). 0 \<le> d \<and> d < b" by simp
      with False 2 show ?thesis by (subst digits.simps) simp
    qed
  next
    case 3
    show ?case
    proof (cases "n < b")
      case True
      with 3 show ?thesis by (subst digits.simps) (simp add: num_Cons num_Nil)
    next
      case False
      with 3 have "0 \<le> n div b" by (simp add: pos_imp_zdiv_nonneg_iff)
      with "1.IH"(3) False 3 have "num b 0 (digits b (n div b)) = n div b" by simp
      with False 3 show ?thesis by (subst digits.simps) (simp add: num_snoc)
    qed
  }
qed

subsection \<open>Overflow at the last digit\<close>

lemma finish_oflow:
  assumes k: "kind_ok k" and o: "f AND FLAG_OFLOW \<noteq> 0"
  shows "finish k n (s, v, f) =
           \<lparr>val = (if is_signed k \<and> f AND FLAG_NEG \<noteq> 0 then strtoi_min k else strtoi_max k),
            endptr = (if f AND FLAG_ANY \<noteq> 0 then s - 1 else n), err = Some ERANGE, flags = f\<rparr>"
proof -
  define h :: int where "h = 2 ^ (bits k - 1)"
  have p: "(2::int) ^ bits k = 2 * h" unfolding h_def by (rule pow2_bits [OF k])
  have h: "0 < h" by (simp add: h_def)
  have m1: "(h - 1) mod (2 * h) = h - 1" "h mod (2 * h) = h" "(h + h) mod (2 * h) = 0"
    using h by (simp_all add: mod_pos_pos_trivial)
  have mx: "is_signed k \<Longrightarrow> strtoi_max k = h - 1" "is_signed k \<Longrightarrow> strtoi_min k = - h"
    by (simp_all add: strtoi_max_def strtoi_min_def h_def)
  have tt: "is_signed k \<Longrightarrow> to_type k y = (y + h) mod (2 * h) - h" for y
    by (simp add: to_type_def p h_def)
  have tu: "to_utype k y = y mod (2 * h)" for y by (simp add: to_utype_def p)
  have "strtoi_min k \<le> strtoi_max k" using min_le_0 [of k] max_ge_0 [of k] by linarith
  then have "to_type k (strtoi_max k) = strtoi_max k" by (intro to_type_id [OF k]) simp_all
  then have a: "is_signed k \<Longrightarrow> to_type k (to_utype k (to_utype k (strtoi_max k))) = strtoi_max k"
    by (simp add: tu mx m1)
  have b: "is_signed k \<Longrightarrow> to_type k (to_utype k (to_utype k (strtoi_max k) + 1)) = strtoi_min k"
    by (simp add: tt tu mx m1)
  have c: "uint (f AND FLAG_NEG) = (if f AND FLAG_NEG \<noteq> 0 then 1 else 0)"
    by (simp add: FLAG_NEG_def and_one_eq)
  from o show ?thesis
    by (simp add: finish_def Let_def c a b)
qed

lemma strtoi_number_over:
  assumes k: "kind_ok k" and wf: "ibase = 0 \<or> (2 \<le> ibase \<and> ibase \<le> 36)"
    and ws: "\<forall>c\<in>set ws. ISSPACE c" and sg: "sg = [] \<or> sg = [43] \<or> sg = [45]"
    and cs: "cs \<noteq> []" "\<forall>x\<in>set (cs @ [c]). digit_of x < effective_base (ws @ sg @ cs @ [c]) ibase"
    and fits: "num (uint (effective_base (ws @ sg @ cs @ [c]) ibase)) 0 (map (\<lambda>c. uint (digit_of c)) cs)
                 \<le> strtoi_max k"
    and over: "limit k (sg = [45]) <
        num (uint (effective_base (ws @ sg @ cs @ [c]) ibase)) 0 (map (\<lambda>c. uint (digit_of c)) cs) *
          uint (effective_base (ws @ sg @ cs @ [c]) ibase) + uint (digit_of c)"
  shows "strtoi k (ws @ sg @ cs @ [c]) ibase =
           Some \<lparr>val = (if is_signed k \<and> sg = [45] then strtoi_min k else strtoi_max k),
                 endptr = length (ws @ sg @ cs @ [c]), err = Some ERANGE,
                 flags = (if sg = [45] then FLAG_NEG else 0) OR FLAG_OFLOW OR FLAG_ANY\<rparr>"
proof -
  let ?m = "ws @ sg @ cs @ [c]"
  let ?eb = "effective_base ?m ibase"
  let ?f0 = "if sg = [45] then FLAG_NEG else 0 :: uchar"
  let ?N1 = "num (uint ?eb) 0 (map (\<lambda>c. uint (digit_of c)) cs)"
  have ne: "cs @ [c] \<noteq> []" by simp
  note pn = plain_number [OF wf ws sg ne cs(2)]
  have f0: "?f0 = 0 \<or> ?f0 = FLAG_NEG" by simp
  have neq: "(?f0 \<noteq> 0) = (sg = [45])" by (simp add: FLAG_NEG_def)
  note eb = effective_base_range [OF wf, of ?m]
  from cs(2) have all1: "\<forall>x\<in>set cs. digit_of x < ?eb" and c: "digit_of c < ?eb" by simp_all
  from fits limit_bounds(1) [OF k, of "?f0 \<noteq> 0"] have fits': "?N1 \<le> limit k (?f0 \<noteq> 0)"
    by linarith
  note ad = add_digits_fits [OF k f0 eb all1 cs(1) order_refl max_ge_0 fits']
  have "0 \<le> ?N1" using base_as_int(1) [OF eb c] by (intro num_ge) simp_all
  with fits min_le_0 [of k] have id: "to_type k ?N1 = ?N1" by (intro to_type_id [OF k]) simp_all
  from over have over': "limit k (?f0 \<noteq> 0) < ?N1 * uint ?eb + uint (digit_of c)"
    by (simp only: neq)
  note ov = add_digit_over [OF k f0 eb c \<open>0 \<le> ?N1\<close> over', of "?f0 OR FLAG_ANY"]
  obtain v f where vf: "add_digits k ?eb (cutoff k ?f0 ?eb) (cutlim k ?f0 ?eb) (cs @ [c]) (0, ?f0) = (v, f)"
    by (cases "add_digits k ?eb (cutoff k ?f0 ?eb) (cutlim k ?f0 ?eb) (cs @ [c]) (0, ?f0)")
  with ov have f: "f = ?f0 OR FLAG_OFLOW OR FLAG_ANY"
    by (simp add: add_digits_snoc ad id or.assoc or.left_commute)
  then have fl: "f AND FLAG_OFLOW \<noteq> 0" "f AND FLAG_ANY \<noteq> 0" "(f AND FLAG_NEG \<noteq> 0) = (sg = [45])"
    by (simp_all add: FLAG_NEG_def FLAG_ANY_def FLAG_OFLOW_def)
  have "strtoi k ?m ibase = Some (finish k 0 (Suc (length ?m), v, f))"
    by (simp only: strtoi_unfold [OF k wf] pn vf if_False) (simp add: add.assoc)
  also have "finish k 0 (Suc (length ?m), v, f) =
      \<lparr>val = (if is_signed k \<and> sg = [45] then strtoi_min k else strtoi_max k),
       endptr = length ?m, err = Some ERANGE, flags = f\<rparr>"
    by (simp only: finish_oflow [OF k fl(1)] fl) simp
  finally show ?thesis by (simp only: f)
qed

lemma rendered_digits:
  assumes b: "2 \<le> b" "b \<le> 36" and n: "0 \<le> n"
  shows "map (digit_char upper) (digits b n) \<noteq> []"
    and "\<forall>c\<in>set (map (digit_char upper) (digits b n)). digit_of c < word_of_int b"
    and "map (\<lambda>c. uint (digit_of c)) (map (digit_char upper) (digits b n)) = digits b n"
proof -
  note dp = digits_props [OF b(1) n]
  from b have ub: "uint (word_of_int b :: uchar) = b" by (simp add: uint_base)
  have v: "uint (digit_of (digit_char upper d)) = d" if "d \<in> set (digits b n)" for d
    using dp(2) that b by (intro digit_char_value) auto
  from dp(1) show "map (digit_char upper) (digits b n) \<noteq> []" by simp
  from dp(2) v show "\<forall>c\<in>set (map (digit_char upper) (digits b n)). digit_of c < word_of_int b"
    by (auto simp: word_less_def ub)
  from v show "map (\<lambda>c. uint (digit_of c)) (map (digit_char upper) (digits b n)) = digits b n"
    by (simp add: map_idI)
qed

lemma abs_le_limit:
  assumes "kind_ok k" "strtoi_min k \<le> v" "v \<le> strtoi_max k"
  shows "\<bar>v\<bar> \<le> limit k (v < 0)"
  using assms by (auto simp: limit_def strtoi_min_def strtoi_max_def split: if_splits)

lemma render_over:
  assumes k: "kind_ok k" and b: "2 \<le> b" "b \<le> 36"
    and v: "v = (if neg then - (limit k neg + 1) else limit k neg + 1)"
  shows "strtoi k (render upper b v) b =
           Some \<lparr>val = (if is_signed k \<and> neg then strtoi_min k else strtoi_max k),
                 endptr = length (render upper b v), err = Some ERANGE,
                 flags = (if neg then FLAG_NEG else 0) OR FLAG_OFLOW OR FLAG_ANY\<rparr>"
proof -
  define N where "N = limit k neg + 1"
  let ?sg = "if neg then [45] else [] :: uchar list"
  let ?cs = "map (digit_char upper) (digits b (N div b))"
  let ?c = "digit_char upper (N mod b)"
  from limit_bounds(1) [OF k, of neg] limit_bounds(3) [OF k] have Nbig: "2 ^ 15 \<le> N" by (simp add: N_def)
  with b have Nb: "\<not> N < b" "0 \<le> N" "0 < N" by simp_all
  from v Nb have av: "\<bar>v\<bar> = N" "(v < 0) = neg" by (auto simp: N_def)
  from b Nb have dg: "digits b N = digits b (N div b) @ [N mod b]"
    by (subst digits.simps) simp
  from v have vn: "neg \<Longrightarrow> - v = N" "\<not> neg \<Longrightarrow> v = N" by (simp_all add: N_def)
  have r: "render upper b v = [] @ ?sg @ ?cs @ [?c]"
    using Nb(2) by (cases neg) (simp_all add: render_def av vn dg)
  have wf: "b = 0 \<or> (2 \<le> b \<and> b \<le> 36)" using b by simp
  have sg: "?sg = [] \<or> ?sg = [43] \<or> ?sg = [45]" by simp
  have neg: "(?sg = [45]) = neg" by simp
  from b Nb have q0: "0 \<le> N div b" by (simp add: pos_imp_zdiv_nonneg_iff)
  note rd = rendered_digits [OF b q0, of upper]
  have eb: "effective_base m b = word_of_int b" for m
    by (rule effective_base_explicit [OF b])
  from b have ub: "uint (word_of_int b :: uchar) = b" by (simp add: uint_base)
  have n: "num b 0 (digits b (N div b)) = N div b" by (rule digits_props(3) [OF b(1) q0])
  from b Nb have m: "0 \<le> N mod b" "N mod b < b" by simp_all
  with b have "N mod b < 36" by linarith
  with m have cv: "uint (digit_of ?c) = N mod b" by (intro digit_char_value)
  with m have cl: "digit_of ?c < word_of_int b" by (simp add: word_less_def ub)
  have ws: "\<forall>c\<in>set []. ISSPACE c" by simp
  have all: "\<forall>x\<in>set (?cs @ [?c]). digit_of x < effective_base ([] @ ?sg @ ?cs @ [?c]) b"
    using rd(2) cl by (simp only: eb) simp
  have "N div b \<le> N div 2" using b Nb by (intro zdiv_mono2) simp_all
  also have "\<dots> \<le> strtoi_max k"
    using limit_bounds(2) [OF k, of neg] limit_bounds(3) [OF k] by (simp add: N_def)
  finally have fits: "num (uint (effective_base ([] @ ?sg @ ?cs @ [?c]) b)) 0
      (map (\<lambda>c. uint (digit_of c)) ?cs) \<le> strtoi_max k"
    using rd(3) by (simp only: eb ub n)
  have "limit k neg < N div b * b + N mod b" by (simp add: N_def)
  then have over: "limit k (?sg = [45]) <
      num (uint (effective_base ([] @ ?sg @ ?cs @ [?c]) b)) 0 (map (\<lambda>c. uint (digit_of c)) ?cs) *
        uint (effective_base ([] @ ?sg @ ?cs @ [?c]) b) + uint (digit_of ?c)"
    using rd(3) by (simp only: eb ub n neg cv)
  from strtoi_number_over [OF k wf ws sg rd(1) all fits over]
  show ?thesis by (simp only: r [symmetric] neg)
qed

lemma render_parses:
  assumes "kind_ok k" "2 \<le> b" "b \<le> 36" "strtoi_min k \<le> v" "v \<le> strtoi_max k"
  shows "strtoi k (render upper b v) b =
           Some \<lparr>val = v, endptr = length (render upper b v), err = None,
                 flags = (if v < 0 then FLAG_NEG else 0) OR FLAG_ANY\<rparr>
       \<and> map_option status_of (strtoi k (render upper b v) b) = Some Ok
       \<and> length (render upper b v) = length (digits b \<bar>v\<bar>) + (if v < 0 then 1 else 0)"
proof -
  let ?sg = "if v < 0 then [45] else [] :: uchar list"
  let ?cs = "map (digit_char upper) (digits b \<bar>v\<bar>)"
  have r: "render upper b v = [] @ ?sg @ ?cs" by (simp add: render_def)
  have wf: "b = 0 \<or> (2 \<le> b \<and> b \<le> 36)" using assms(2,3) by simp
  have sg: "?sg = [] \<or> ?sg = [43] \<or> ?sg = [45]" by simp
  have neg: "(?sg = [45]) = (v < 0)" by simp
  note rd = rendered_digits [OF assms(2,3), of "\<bar>v\<bar>" upper, simplified]
  have eb: "effective_base m b = word_of_int b" for m
    by (rule effective_base_explicit [OF assms(2,3)])
  from assms(2,3) have ub: "uint (word_of_int b :: uchar) = b" by (simp add: uint_base)
  have n: "num b 0 (digits b \<bar>v\<bar>) = \<bar>v\<bar>" by (rule digits_props(3) [OF assms(2)]) simp
  have fits: "num (uint (effective_base ([] @ ?sg @ ?cs) b)) 0 (map (\<lambda>c. uint (digit_of c)) ?cs)
      \<le> limit k (?sg = [45])"
    using abs_le_limit [OF assms(1,4,5)] rd(3) by (simp only: eb ub n neg map_map comp_def)
  have all: "\<forall>c\<in>set ?cs. digit_of c < effective_base ([] @ ?sg @ ?cs) b"
    using rd(2) by (simp only: eb) simp
  have ne: "?cs \<noteq> []" using rd(1) by simp
  have ws: "\<forall>c\<in>set []. ISSPACE c" by simp
  have "(if ?sg = [45] then - 1 else 1) * \<bar>v\<bar> = v" by simp
  with strtoi_number [OF assms(1) wf ws sg ne all fits] rd(3)
  have "strtoi k (render upper b v) b =
      Some \<lparr>val = to_type k v, endptr = length (render upper b v), err = None,
            flags = (if v < 0 then FLAG_NEG else 0) OR FLAG_ANY\<rparr>"
    by (simp only: r [symmetric] eb ub n neg map_map comp_def)
  then have "strtoi k (render upper b v) b =
      Some \<lparr>val = v, endptr = length (render upper b v), err = None,
            flags = (if v < 0 then FLAG_NEG else 0) OR FLAG_ANY\<rparr>"
    by (simp only: to_type_id [OF assms(1,4,5)])
  then show ?thesis
    by (simp add: status_of_def FLAG_NEG_def FLAG_ANY_def FLAG_OFLOW_def render_def)
qed

subsection \<open>The clamp\<close>

lemma status_of_simps:
  "status_of \<lparr>val = v, endptr = e, err = None, flags = FLAG_ANY\<rparr> = Ok"
  "status_of \<lparr>val = v, endptr = e, err = None, flags = FLAG_NEG OR FLAG_ANY\<rparr> = Ok"
  "status_of \<lparr>val = v, endptr = e, err = Some ERANGE, flags = FLAG_OFLOW OR FLAG_ANY\<rparr> = OutOfRange"
  "status_of \<lparr>val = v, endptr = e, err = Some ERANGE, flags = FLAG_NEG OR FLAG_OFLOW OR FLAG_ANY\<rparr> = OutOfRange"
  by (simp_all add: status_of_def FLAG_NEG_def FLAG_ANY_def FLAG_OFLOW_def)

lemma out_of_range_clamped:
  assumes k: "kind_ok k" and wf: "ibase = 0 \<or> (2 \<le> ibase \<and> ibase \<le> 36)"
  shows "\<exists>r. strtoi k nptr ibase = Some r \<and>
           (status_of r = OutOfRange \<longrightarrow>
              val r = (if is_signed k \<and> negative nptr then strtoi_min k else strtoi_max k) \<and>
              err r = Some ERANGE)"
proof -
  let ?f0 = "if negative nptr then FLAG_NEG else 0 :: uchar"
  let ?b = "effective_base nptr ibase"
  obtain v f where vf: "add_digits k ?b (cutoff k ?f0 ?b) (cutlim k ?f0 ?b)
      (digit_run ?b nptr (digits_start nptr ibase)) (0, ?f0) = (v, f)"
    by (cases "add_digits k ?b (cutoff k ?f0 ?b) (cutlim k ?f0 ?b)
      (digit_run ?b nptr (digits_start nptr ibase)) (0, ?f0)")
  from add_digits_neg [of k ?b "cutoff k ?f0 ?b" "cutlim k ?f0 ?b"
      "digit_run ?b nptr (digits_start nptr ibase)" "(0, ?f0)"] vf
  have "f AND FLAG_NEG = ?f0 AND FLAG_NEG" by simp
  then have n: "(f AND FLAG_NEG \<noteq> 0) = negative nptr" by (simp add: FLAG_NEG_def)
  let ?r = "finish k (if hex_prefix nptr ibase then body_start nptr + 1 else 0)
      (Suc (digits_start nptr ibase + length (digit_run ?b nptr (digits_start nptr ibase))), v, f)"
  have s: "strtoi k nptr ibase = Some ?r" by (simp only: strtoi_unfold [OF k wf] vf)
  have "val ?r = (if is_signed k \<and> negative nptr then strtoi_min k else strtoi_max k) \<and>
      err ?r = Some ERANGE" if "status_of ?r = OutOfRange"
  proof -
    from that have "f AND FLAG_OFLOW \<noteq> 0"
      by (auto simp: status_of_def finish_endptr(4) split: if_splits)
    from finish_oflow [OF k this] n show ?thesis by simp
  qed
  with s show ?thesis by blast
qed

lemma unsigned_minus_one:
  assumes k: "kind_ok k" and u: "\<not> is_signed k"
  shows "strtoi k (render upper 10 (- 1)) 10 =
           Some \<lparr>val = strtoi_max k, endptr = 2, err = None, flags = FLAG_NEG OR FLAG_ANY\<rparr>"
proof -
  have r: "render upper 10 (- 1) = [] @ [45] @ [49]"
    by (simp add: render_def digits.simps digit_char_def)
  have wf: "(10::int) = 0 \<or> (2 \<le> (10::int) \<and> (10::int) \<le> 36)" by simp
  have ws: "\<forall>c\<in>set []. ISSPACE c" by simp
  have sg: "[45] = [] \<or> [45] = [43] \<or> [45] = [45::uchar]" by simp
  have eb: "effective_base m 10 = 10" for m
    using effective_base_explicit [of 10 m] by simp
  have d: "digit_of 49 = 1" by (simp add: digit_of_def TOLOW_def CASE_CONVERT_def)
  have all: "\<forall>c\<in>set [49]. digit_of c < effective_base ([] @ [45] @ [49]) 10"
    by (simp add: eb d)
  have n: "num (uint (effective_base ([] @ [45] @ [49]) 10)) 0 (map (\<lambda>c. uint (digit_of c)) [49]) = 1"
    by (simp add: eb d num_def)
  from limit_bounds(3) [OF k] u have fits: "num (uint (effective_base ([] @ [45] @ [49]) 10)) 0
      (map (\<lambda>c. uint (digit_of c)) [49]) \<le> limit k ([45] = [45::uchar])"
    unfolding n by (simp add: limit_def)
  have "(- 1) mod (2::int) ^ bits k = 2 ^ bits k - 1"
    by (simp add: zmod_minus1)
  with u have v: "to_type k (- 1) = strtoi_max k" by (simp add: to_type_def strtoi_max_def)
  from strtoi_number [OF k wf ws sg _ all fits] show ?thesis
    unfolding n r using v by simp
qed

subsection \<open>The reported end\<close>

lemma move_end_same: "val (move_end n r) = val r" "status_of (move_end n r) = status_of r"
  by (simp_all add: move_end_def status_of_def)

text \<open>
  A hexadecimal prefix followed by a character that the loop rejects in base 16: the
  reported end is the offset just behind the \<^verbatim>\<open>0\<close>, the value is 0, \<^verbatim>\<open>errno\<close> is left
  alone.
\<close>

lemma hex_prefix_rollback:
  assumes "kind_ok k" "ibase = 0 \<or> ibase = 16"
    and "load m (body_start m) = 48"
    and "load m (body_start m + 1) = 120 \<or> load m (body_start m + 1) = 88"
    and "16 \<le> digit_of (load m (body_start m + 2))"
  shows "strtoi k m ibase =
           Some \<lparr>val = 0, endptr = body_start m + 1, err = None,
                 flags = (if negative m then FLAG_NEG else 0)\<rparr>"
proof -
  from assms(2-4) have h: "hex_prefix m ibase" by (simp add: hex_prefix_def)
  then have "effective_base m ibase = 16" "digits_start m ibase = body_start m + 2"
    by (simp_all add: effective_base_def digits_start_def)
  with assms(5) have "effective_base m ibase \<le> digit_of (load m (digits_start m ibase))"
    by simp
  from strtoi_zero_run [OF assms(1) _ this] assms(2) h show ?thesis by auto
qed

lemma hex_prefix_rollback_example:
  "kind_ok long32 \<and> load (bytes ''  -0Xg'') (body_start (bytes ''  -0Xg'')) = 48
   \<and> load (bytes ''  -0Xg'') (body_start (bytes ''  -0Xg'') + 1) = 88
   \<and> 16 \<le> digit_of (load (bytes ''  -0Xg'') (body_start (bytes ''  -0Xg'') + 2))
   \<and> body_start (bytes ''  -0Xg'') = 3
   \<and> strtoi long32 (bytes ''  -0Xg'') 0 = Some \<lparr>val = 0, endptr = 4, err = None, flags = 1\<rparr>"
proof -
  have k: "kind_ok long32" by (simp add: kind_ok_def long32_def)
  have b: "body_start (bytes ''  -0Xg'') = 3" by code_simp
  have n: "negative (bytes ''  -0Xg'')" by code_simp
  have h1: "load (bytes ''  -0Xg'') (body_start (bytes ''  -0Xg'')) = 48" by code_simp
  have h2: "load (bytes ''  -0Xg'') (body_start (bytes ''  -0Xg'') + 1) = 88" by code_simp
  have h3: "16 \<le> digit_of (load (bytes ''  -0Xg'') (body_start (bytes ''  -0Xg'') + 2))"
    by code_simp
  from hex_prefix_rollback [OF k _ h1 _ h3, of 0] h2 b n
  have "strtoi long32 (bytes ''  -0Xg'') 0 = Some \<lparr>val = 0, endptr = 4, err = None, flags = 1\<rparr>"
    by (simp add: FLAG_NEG_def)
  with k b h1 h2 h3 show ?thesis by simp
qed

text \<open>
  When the loop accepts at least one character, the reported end is the offset just
  behind the run of characters it accepts as digits of the effective base, and
  \<^verbatim>\<open>FLAG_ANY\<close> is set. Nothing is asked of the overflow flag: the run is consumed to
  its end whether or not the value overflowed on the way.
\<close>

lemma accepted_run_consumed:
  assumes "kind_ok k" "ibase = 0 \<or> (2 \<le> ibase \<and> ibase \<le> 36)"
    and "digit_run (effective_base m ibase) m (digits_start m ibase) \<noteq> []"
  shows "map_option (\<lambda>r. (endptr r, flags r AND FLAG_ANY \<noteq> 0)) (strtoi k m ibase) =
           Some (digits_start m ibase +
                 length (digit_run (effective_base m ibase) m (digits_start m ibase)), True)"
proof -
  let ?f = "if negative m then FLAG_NEG else 0"
  let ?b = "effective_base m ibase"
  obtain v f where vf: "add_digits k ?b (cutoff k ?f ?b) (cutlim k ?f ?b)
      (digit_run ?b m (digits_start m ibase)) (0, ?f) = (v, f)"
    by (cases "add_digits k ?b (cutoff k ?f ?b) (cutlim k ?f ?b)
      (digit_run ?b m (digits_start m ibase)) (0, ?f)") 
  from add_digits_any [OF assms(3), of k ?b "cutoff k ?f ?b" "cutlim k ?f ?b" "(0, ?f)"] vf
  have "f AND FLAG_ANY \<noteq> 0" by simp
  then show ?thesis
    by (simp add: strtoi_unfold [OF assms(1,2)] vf finish_def Let_def)
qed

lemma accepted_run_consumed_example:
  "kind_ok ulong32
   \<and> digit_run (effective_base (bytes ''99999999999999999999 '') 10) (bytes ''99999999999999999999 '')
        (digits_start (bytes ''99999999999999999999 '') 10) = bytes ''99999999999999999999''
   \<and> map_option (\<lambda>r. (endptr r, flags r AND FLAG_ANY \<noteq> 0, err r))
        (strtoi ulong32 (bytes ''99999999999999999999 '') 10) = Some (20, True, Some ERANGE)"
proof -
  have k: "kind_ok ulong32" by (simp add: kind_ok_def ulong32_def)
  have r: "digit_run (effective_base (bytes ''99999999999999999999 '') 10) (bytes ''99999999999999999999 '')
        (digits_start (bytes ''99999999999999999999 '') 10) = bytes ''99999999999999999999''"
    by code_simp
  have e: "map_option err (strtoi ulong32 (bytes ''99999999999999999999 '') 10) = Some (Some ERANGE)"
    by code_simp
  have d: "digits_start (bytes ''99999999999999999999 '') 10 = 0" by code_simp
  have l: "length (bytes ''99999999999999999999'') = 20" "bytes ''99999999999999999999'' \<noteq> []"
    by (simp_all add: bytes_def)
  from accepted_run_consumed [OF k, of 10 "bytes ''99999999999999999999 ''"] r d l
  have "map_option (\<lambda>r. (endptr r, flags r AND FLAG_ANY \<noteq> 0))
        (strtoi ulong32 (bytes ''99999999999999999999 '') 10) = Some (20, True)"
    by simp
  with e have "map_option (\<lambda>r. (endptr r, flags r AND FLAG_ANY \<noteq> 0, err r))
        (strtoi ulong32 (bytes ''99999999999999999999 '') 10) = Some (20, True, Some ERANGE)"
    by (cases "strtoi ulong32 (bytes ''99999999999999999999 '') 10") auto
  with k r show ?thesis by simp
qed

subsection \<open>What the loop takes for a digit\<close>

text \<open>The characters the loop accepts as digits of some base up to 36.\<close>

lemma digit_of_accepts:
  "digit_of c < 36 \<longleftrightarrow>
     (48 \<le> c \<and> c \<le> 57) \<or> (58 \<le> c \<and> c \<le> 64) \<or> (65 \<le> c \<and> c \<le> 90) \<or> (97 \<le> c \<and> c \<le> 122)"
  by (rule uchar_all [of "\<lambda>c. digit_of c < 36 \<longleftrightarrow>
     (48 \<le> c \<and> c \<le> 57) \<or> (58 \<le> c \<and> c \<le> 64) \<or> (65 \<le> c \<and> c \<le> 90) \<or> (97 \<le> c \<and> c \<le> 122)"])
    code_simp

subsection \<open>The value of a run of digits that fits\<close>

lemma digit_run_accepted: "\<forall>c\<in>set (digit_run base m p). digit_of c < base"
  by (auto simp: digit_run_def dest: set_takeWhileD)

lemma strtoi_value:
  assumes k: "kind_ok k" and wf: "ibase = 0 \<or> (2 \<le> ibase \<and> ibase \<le> 36)"
    and ne: "digit_run (effective_base m ibase) m (digits_start m ibase) \<noteq> []"
    and fits: "num (uint (effective_base m ibase)) 0
                 (map (\<lambda>c. uint (digit_of c)) (digit_run (effective_base m ibase) m (digits_start m ibase)))
                 \<le> limit k (negative m)"
  shows "strtoi k m ibase =
           Some \<lparr>val = to_type k ((if negative m then - 1 else 1) *
                    num (uint (effective_base m ibase)) 0
                      (map (\<lambda>c. uint (digit_of c))
                         (digit_run (effective_base m ibase) m (digits_start m ibase)))),
                 endptr = digits_start m ibase +
                    length (digit_run (effective_base m ibase) m (digits_start m ibase)),
                 err = None, flags = (if negative m then FLAG_NEG else 0) OR FLAG_ANY\<rparr>"
proof -
  let ?eb = "effective_base m ibase"
  let ?run = "digit_run ?eb m (digits_start m ibase)"
  let ?f0 = "if negative m then FLAG_NEG else 0 :: uchar"
  have f0: "?f0 = 0 \<or> ?f0 = FLAG_NEG" by simp
  have neq: "(?f0 \<noteq> 0) = negative m" by (simp add: FLAG_NEG_def)
  from fits have fits': "num (uint ?eb) 0 (map (\<lambda>c. uint (digit_of c)) ?run) \<le> limit k (?f0 \<noteq> 0)"
    by (simp only: neq)
  note ad = add_digits_fits [OF k f0 effective_base_range [OF wf] digit_run_accepted ne
      order_refl max_ge_0 fits']
  have "strtoi k m ibase =
      Some (finish k (if hex_prefix m ibase then body_start m + 1 else 0)
        (Suc (digits_start m ibase + length ?run),
         to_type k (num (uint ?eb) 0 (map (\<lambda>c. uint (digit_of c)) ?run)), ?f0 OR FLAG_ANY))"
    by (simp only: strtoi_unfold [OF k wf] ad)
  also have "\<dots> = Some \<lparr>val = to_type k ((if negative m then - 1 else 1) *
                    num (uint ?eb) 0 (map (\<lambda>c. uint (digit_of c)) ?run)),
                 endptr = digits_start m ibase + length ?run, err = None,
                 flags = ?f0 OR FLAG_ANY\<rparr>"
    by (simp only: finish_number [OF k f0] neq) simp
  finally show ?thesis .
qed

subsection \<open>An overflow that is not flagged\<close>

text \<open>
  On a signed kind a negative number reaches the magnitude \<open>2 ^ (bits k - 1)\<close> without
  the flag, and \<^verbatim>\<open>val\<close> wraps to the minimum. A further digit is then compared with a
  negative \<^verbatim>\<open>val\<close>, the flag is not raised, and the product wraps again.
\<close>

lemma negative_overflow_unflagged:
  "strtoi long32 (bytes ''-21474836480'') 10 = Some \<lparr>val = 0, endptr = 12, err = None, flags = 3\<rparr>"
  by code_simp

section \<open>The claims\<close>

text \<open>
  Claim C1. For every width kind, every base \<open>b\<close> in 2..36 given explicitly and
  every integer \<open>v\<close> the kind can represent, parsing the canonical rendering of \<open>v\<close>
  in base \<open>b\<close> (letters in either case) returns \<open>v\<close> with status Ok, leaves \<^verbatim>\<open>errno\<close> alone, and
  reports the whole rendering consumed: its digits, and the sign if there is one.
\<close>

theorem strtoi_render:
  assumes "kind_ok k" "2 \<le> b" "b \<le> 36" "strtoi_min k \<le> v" "v \<le> strtoi_max k"
  shows "strtoi k (render upper b v) b =
           Some \<lparr>val = v, endptr = length (render upper b v), err = None,
                 flags = (if v < 0 then FLAG_NEG else 0) OR FLAG_ANY\<rparr>
       \<and> map_option status_of (strtoi k (render upper b v) b) = Some Ok
       \<and> length (render upper b v) = length (digits b \<bar>v\<bar>) + (if v < 0 then 1 else 0)"
  by (rule render_parses [OF assms])

theorem strtoi_render_witness:
  "kind_ok long32 \<and> strtoi_min long32 \<le> - 2147483648 \<and> - 2147483648 \<le> strtoi_max long32
   \<and> render False 10 (- 2147483648) = bytes ''-2147483648''
   \<and> strtoi long32 (bytes ''-2147483648'') 10 =
        Some \<lparr>val = - 2147483648, endptr = 11, err = None, flags = 3\<rparr>
   \<and> kind_ok ulong32_builtin \<and> strtoi_min ulong32_builtin \<le> 4294967295
   \<and> 4294967295 \<le> strtoi_max ulong32_builtin
   \<and> render True 36 4294967295 = bytes ''1Z141Z3''
   \<and> strtoi ulong32_builtin (bytes ''1Z141Z3'') 36 =
        Some \<lparr>val = 4294967295, endptr = 7, err = None, flags = 2\<rparr>"
proof -
  have k: "kind_ok long32" "kind_ok ulong32_builtin"
    by (simp_all add: kind_ok_def long32_def ulong32_builtin_def)
  have r: "strtoi_min long32 \<le> - 2147483648" "- 2147483648 \<le> strtoi_max long32"
    "strtoi_min ulong32_builtin \<le> 4294967295" "4294967295 \<le> strtoi_max ulong32_builtin"
    by (simp_all add: strtoi_min_def strtoi_max_def long32_def ulong32_builtin_def)
  have e: "render False 10 (- 2147483648) = bytes ''-2147483648''"
    "render True 36 4294967295 = bytes ''1Z141Z3''"
    by code_simp+
  have l: "length (bytes ''-2147483648'') = 11" "length (bytes ''1Z141Z3'') = 7"
    by (simp_all add: bytes_def)
  from strtoi_render [OF k(1) _ _ r(1,2), of 10 False] e(1) l(1)
  have a: "strtoi long32 (bytes ''-2147483648'') 10 =
        Some \<lparr>val = - 2147483648, endptr = 11, err = None, flags = 3\<rparr>"
    by (simp add: FLAG_NEG_def FLAG_ANY_def)
  from strtoi_render [OF k(2) _ _ r(3,4), of 36 True] e(2) l(2)
  have b: "strtoi ulong32_builtin (bytes ''1Z141Z3'') 36 =
        Some \<lparr>val = 4294967295, endptr = 7, err = None, flags = 2\<rparr>"
    by (simp add: FLAG_NEG_def FLAG_ANY_def)
  from k r e a b show ?thesis by simp
qed

text \<open>
  Claim C2, as amended. For every width kind: whenever the status is OutOfRange the
  returned value is the kind's maximum, or its minimum when the kind is signed and
  the sign read was a minus, and \<^verbatim>\<open>errno\<close> is \<^verbatim>\<open>ERANGE\<close>. The decimal renderings of
  the maximum and of the minimum parse to Ok with those values; the rendering of
  the maximum plus one parses to OutOfRange with the maximum; for a signed kind the
  rendering of the minimum minus one parses to OutOfRange with the minimum; for an
  unsigned kind the rendering of the minimum minus one, \<^verbatim>\<open>-1\<close>, parses to Ok with the
  maximum.
\<close>

theorem strtoi_clamp:
  assumes "kind_ok k"
  shows "((ibase = 0 \<or> (2 \<le> ibase \<and> ibase \<le> 36)) \<longrightarrow>
           (\<exists>r. strtoi k nptr ibase = Some r \<and>
              (status_of r = OutOfRange \<longrightarrow>
                 val r = (if is_signed k \<and> negative nptr then strtoi_min k else strtoi_max k) \<and>
                 err r = Some ERANGE)))
    \<and> map_option (\<lambda>r. (status_of r, val r)) (strtoi k (render upper 10 (strtoi_max k)) 10) =
         Some (Ok, strtoi_max k)
    \<and> map_option (\<lambda>r. (status_of r, val r)) (strtoi k (render upper 10 (strtoi_min k)) 10) =
         Some (Ok, strtoi_min k)
    \<and> map_option (\<lambda>r. (status_of r, val r)) (strtoi k (render upper 10 (strtoi_max k + 1)) 10) =
         Some (OutOfRange, strtoi_max k)
    \<and> (is_signed k \<longrightarrow>
         map_option (\<lambda>r. (status_of r, val r)) (strtoi k (render upper 10 (strtoi_min k - 1)) 10) =
           Some (OutOfRange, strtoi_min k))
    \<and> (\<not> is_signed k \<longrightarrow>
         map_option (\<lambda>r. (status_of r, val r)) (strtoi k (render upper 10 (strtoi_min k - 1)) 10) =
           Some (Ok, strtoi_max k))"
proof -
  note k = assms
  have b: "(2::int) \<le> 10" "(10::int) \<le> 36" by simp_all
  have mm: "strtoi_min k \<le> strtoi_max k" using min_le_0 [of k] max_ge_0 [of k] by linarith
  have pair: "map_option (\<lambda>r. (status_of r, val r)) x = Some (st, v)"
    if "x = Some r" "status_of r = st" "val r = v" for x r st v
    using that by simp
  have 1: "(ibase = 0 \<or> (2 \<le> ibase \<and> ibase \<le> 36)) \<longrightarrow>
           (\<exists>r. strtoi k nptr ibase = Some r \<and>
              (status_of r = OutOfRange \<longrightarrow>
                 val r = (if is_signed k \<and> negative nptr then strtoi_min k else strtoi_max k) \<and>
                 err r = Some ERANGE))"
    using out_of_range_clamped [OF k] by blast
  from render_parses [OF k b mm order_refl, of upper]
  have 2: "map_option (\<lambda>r. (status_of r, val r)) (strtoi k (render upper 10 (strtoi_max k)) 10) =
         Some (Ok, strtoi_max k)"
    by (cases "strtoi k (render upper 10 (strtoi_max k)) 10") auto
  from render_parses [OF k b order_refl mm, of upper]
  have 3: "map_option (\<lambda>r. (status_of r, val r)) (strtoi k (render upper 10 (strtoi_min k)) 10) =
         Some (Ok, strtoi_min k)"
    by (cases "strtoi k (render upper 10 (strtoi_min k)) 10") auto
  have "strtoi_max k + 1 = (if False then - (limit k False + 1) else limit k False + 1)"
    by (simp add: limit_def)
  from render_over [OF k b this, of upper]
  have 4: "map_option (\<lambda>r. (status_of r, val r)) (strtoi k (render upper 10 (strtoi_max k + 1)) 10) =
         Some (OutOfRange, strtoi_max k)"
    by (simp add: status_of_simps)
  have 5: "map_option (\<lambda>r. (status_of r, val r)) (strtoi k (render upper 10 (strtoi_min k - 1)) 10) =
           Some (OutOfRange, strtoi_min k)" if s: "is_signed k"
  proof -
    from s have "strtoi_min k - 1 = (if True then - (limit k True + 1) else limit k True + 1)"
      by (simp add: limit_def strtoi_min_def)
    from render_over [OF k b this, of upper] s show ?thesis
      by (simp add: status_of_simps)
  qed
  have 6: "map_option (\<lambda>r. (status_of r, val r)) (strtoi k (render upper 10 (strtoi_min k - 1)) 10) =
           Some (Ok, strtoi_max k)" if u: "\<not> is_signed k"
  proof -
    from u have "strtoi_min k - 1 = - 1" by (simp add: strtoi_min_def)
    with unsigned_minus_one [OF k u, of upper] show ?thesis
      by (simp add: status_of_simps)
  qed
  from 1 2 3 4 5 6 show ?thesis by blast
qed

theorem strtoi_clamp_witness:
  "kind_ok long32 \<and> is_signed long32
   \<and> map_option (\<lambda>r. (status_of r, val r)) (strtoi long32 (bytes ''-99999999999'') 10) =
        Some (OutOfRange, - 2147483648)
   \<and> map_option (\<lambda>r. (status_of r, val r)) (strtoi long32 (bytes ''2147483647'') 10) =
        Some (Ok, 2147483647)
   \<and> map_option (\<lambda>r. (status_of r, val r)) (strtoi long32 (bytes ''-2147483648'') 10) =
        Some (Ok, - 2147483648)
   \<and> map_option (\<lambda>r. (status_of r, val r)) (strtoi long32 (bytes ''2147483648'') 10) =
        Some (OutOfRange, 2147483647)
   \<and> map_option (\<lambda>r. (status_of r, val r)) (strtoi long32 (bytes ''-2147483649'') 10) =
        Some (OutOfRange, - 2147483648)
   \<and> kind_ok ulong32 \<and> \<not> is_signed ulong32
   \<and> map_option (\<lambda>r. (status_of r, val r)) (strtoi ulong32 (bytes ''-1'') 10) =
        Some (Ok, 4294967295)"
proof -
  have k: "kind_ok long32" "is_signed long32" "kind_ok ulong32" "\<not> is_signed ulong32"
    by (simp_all add: kind_ok_def long32_def ulong32_def)
  have m: "strtoi_max long32 = 2147483647" "strtoi_min long32 = - 2147483648"
    "strtoi_min ulong32 = 0" "strtoi_max ulong32 = 4294967295"
    by (simp_all add: strtoi_max_def strtoi_min_def long32_def ulong32_def)
  have r: "render False 10 2147483647 = bytes ''2147483647''"
    "render False 10 (- 2147483648) = bytes ''-2147483648''"
    "render False 10 2147483648 = bytes ''2147483648''"
    "render False 10 (- 2147483649) = bytes ''-2147483649''"
    "render False 10 (- 1) = bytes ''-1''"
    by code_simp+
  have s: "map_option status_of (strtoi long32 (bytes ''-99999999999'') 10) = Some OutOfRange"
    by code_simp
  have n: "negative (bytes ''-99999999999'')" by code_simp
  note t = strtoi_clamp [OF k(1), of 10 "bytes ''-99999999999''" False]
  note u = strtoi_clamp [OF k(3), of 10 "[]" False]
  from t s n k(2) m have a: "map_option (\<lambda>r. (status_of r, val r))
      (strtoi long32 (bytes ''-99999999999'') 10) = Some (OutOfRange, - 2147483648)"
    by auto
  from t k(2) have b: "map_option (\<lambda>r. (status_of r, val r)) (strtoi long32 (bytes ''2147483647'') 10) =
        Some (Ok, 2147483647)"
    "map_option (\<lambda>r. (status_of r, val r)) (strtoi long32 (bytes ''-2147483648'') 10) =
        Some (Ok, - 2147483648)"
    "map_option (\<lambda>r. (status_of r, val r)) (strtoi long32 (bytes ''2147483648'') 10) =
        Some (OutOfRange, 2147483647)"
    "map_option (\<lambda>r. (status_of r, val r)) (strtoi long32 (bytes ''-2147483649'') 10) =
        Some (OutOfRange, - 2147483648)"
    by (simp_all add: m r)
  from u k(4) have c: "map_option (\<lambda>r. (status_of r, val r)) (strtoi ulong32 (bytes ''-1'') 10) =
        Some (Ok, 4294967295)"
    by (simp add: m r)
  from k a b c show ?thesis by simp
qed

theorem strtoi_clamp_counterexample:
  "strtoi_min ulong32 = 0 \<and> render False 10 (strtoi_min ulong32 - 1) = bytes ''-1''
   \<and> strtoi ulong32 (bytes ''-1'') 10 = Some \<lparr>val = 4294967295, endptr = 2, err = None, flags = 3\<rparr>
   \<and> status_of \<lparr>val = 4294967295, endptr = 2, err = None, flags = 3\<rparr> = Ok"
  by code_simp

text \<open>
  Claim C3 says that every character other than \<^verbatim>\<open>0\<close>..\<^verbatim>\<open>9\<close>, \<^verbatim>\<open>a\<close>..\<^verbatim>\<open>z\<close>, \<^verbatim>\<open>A\<close>..\<^verbatim>\<open>Z\<close>
  is classified at or above the base, the characters between \<^verbatim>\<open>9\<close> and \<^verbatim>\<open>A\<close> among
  them. The classification of the loop does otherwise: \<^verbatim>\<open>:\<close> \<^verbatim>\<open>;\<close> \<^verbatim>\<open><\<close> \<^verbatim>\<open>=\<close> \<^verbatim>\<open>>\<close> \<^verbatim>\<open>?\<close> \<^verbatim>\<open>@\<close>
  are not letters, so only \<^verbatim>\<open>'0'\<close> is subtracted and they become 10 to 16. In base 16
  the input \<^verbatim>\<open>":"\<close> parses to 10, and in base 36 \<^verbatim>\<open>"@"\<close> parses to 16.
\<close>

theorem digit_of_punctuation:
  "digit_of 58 = 10 \<and> digit_of 59 = 11 \<and> digit_of 60 = 12 \<and> digit_of 61 = 13
   \<and> digit_of 62 = 14 \<and> digit_of 63 = 15 \<and> digit_of 64 = 16
   \<and> strtoi long32 (bytes '':'') 16 = Some \<lparr>val = 10, endptr = 1, err = None, flags = 2\<rparr>
   \<and> strtoi long32 (bytes ''@'') 36 = Some \<lparr>val = 16, endptr = 1, err = None, flags = 2\<rparr>"
  by code_simp

text \<open>
  Claim C4. For every base argument that is neither 0 nor in 2..36 (1, 37 and every
  negative \<^verbatim>\<open>int\<close> among them) and every input, the call returns 0, stores \<^verbatim>\<open>EINVAL\<close>
  (status InvalidConfiguration) and reports 0 characters consumed; the result is the
  same for every input, so no character of it matters.
\<close>

theorem strtoi_invalid_base:
  assumes "kind_ok k"
    and "- (2 ^ (int_bits k - 1)) \<le> ibase" "ibase < 2 ^ (int_bits k - 1)"
    and "ibase \<noteq> 0" "ibase < 2 \<or> 36 < ibase"
  shows "strtoi k nptr ibase = Some \<lparr>val = 0, endptr = 0, err = Some EINVAL, flags = 0\<rparr>
       \<and> map_option status_of (strtoi k nptr ibase) = Some InvalidConfiguration
       \<and> strtoi k nptr ibase = strtoi k nptr2 ibase"
proof -
  from assms(1) have n: "int_bits k = Suc (int_bits k - 1)" and "15 \<le> int_bits k - 1"
    by (auto simp: kind_ok_def)
  then have "(2::int) ^ 15 \<le> 2 ^ (int_bits k - 1)"
    by (intro power_increasing) simp_all
  then have big: "(36::int) < 2 ^ (int_bits k - 1)" by simp
  have p: "(2::int) ^ int_bits k = 2 * 2 ^ (int_bits k - 1)"
    by (subst n) simp
  have "to_unsigned_int k ibase > 36 \<or> ibase = 1"
  proof (cases "ibase < 0")
    case True
    with assms(2) p have "0 \<le> ibase + 2 ^ int_bits k" "ibase + 2 ^ int_bits k < 2 ^ int_bits k"
      by simp_all
    then have "(ibase + 2 ^ int_bits k) mod 2 ^ int_bits k = ibase + 2 ^ int_bits k"
      by (rule mod_pos_pos_trivial)
    then have "ibase mod 2 ^ int_bits k = ibase + 2 ^ int_bits k" by simp
    with assms(2) big p show ?thesis by (simp add: to_unsigned_int_def)
  next
    case False
    with assms(3) p have "ibase mod 2 ^ int_bits k = ibase"
      by (intro mod_pos_pos_trivial) simp_all
    with False assms(4,5) show ?thesis by (auto simp: to_unsigned_int_def)
  qed
  then have "\<And>m. strtoi k m ibase = Some \<lparr>val = 0, endptr = 0, err = Some EINVAL, flags = 0\<rparr>"
    by (simp add: strtoi_def)
  then show ?thesis by (simp add: status_of_def)
qed

theorem strtoi_invalid_base_witness:
  "kind_ok long32 \<and> - (2 ^ (int_bits long32 - 1)) \<le> (-7::int) \<and> (-7::int) < 2 ^ (int_bits long32 - 1)
   \<and> strtoi long32 (bytes ''12'') (-7) = Some \<lparr>val = 0, endptr = 0, err = Some EINVAL, flags = 0\<rparr>
   \<and> strtoi long32 (bytes ''12'') 37 = Some \<lparr>val = 0, endptr = 0, err = Some EINVAL, flags = 0\<rparr>
   \<and> strtoi long32 (bytes ''12'') 1 = Some \<lparr>val = 0, endptr = 0, err = Some EINVAL, flags = 0\<rparr>"
  using strtoi_invalid_base [of long32 "-7" "bytes ''12''"]
    strtoi_invalid_base [of long32 37 "bytes ''12''"]
    strtoi_invalid_base [of long32 1 "bytes ''12''"]
  by (simp add: kind_ok_def long32_def)

text \<open>
  Claim C5 says that after \<^verbatim>\<open>0x\<close> with no valid hexadecimal digit behind it only the
  \<^verbatim>\<open>0\<close> is reported as consumed. For a character that the loop rejects this is
  \<open>hex_prefix_rollback\<close>; but the loop takes \<^verbatim>\<open>:\<close> for the digit 10, so \<^verbatim>\<open>"0x:"\<close> in
  base 16 and in base 0 parses to 10 with all three characters consumed.
\<close>

theorem strtoi_hex_prefix_colon:
  "strtoi long32 (bytes ''0x:'') 16 = Some \<lparr>val = 10, endptr = 3, err = None, flags = 2\<rparr>
   \<and> strtoi long32 (bytes ''0x:'') 0 = Some \<lparr>val = 10, endptr = 3, err = None, flags = 2\<rparr>"
  by code_simp

text \<open>
  Claim C6 says that the reported end is the offset just behind the last valid
  digit, overflow or not. For the digits the loop accepts this is
  \<open>accepted_run_consumed\<close>; but the loop takes \<^verbatim>\<open>:\<close> for the digit 10, so \<^verbatim>\<open>"1:"\<close> in
  base 16 parses to 26 with both characters consumed, one more than the valid
  digits.
\<close>

theorem strtoi_consumes_colon:
  "strtoi long32 (bytes ''1:'') 16 = Some \<lparr>val = 26, endptr = 2, err = None, flags = 2\<rparr>"
  by code_simp

text \<open>
  Claim C7. With base 0 the call reads digits in the base \<open>B\<close> that is 16 when the
  characters after white space and sign are \<^verbatim>\<open>0\<close> and then \<^verbatim>\<open>x\<close> or \<^verbatim>\<open>X\<close>, 8 when they
  start with \<^verbatim>\<open>0\<close> followed by anything else, and 10 otherwise: from the offset \<open>d\<close>
  behind the sign, or behind the \<^verbatim>\<open>0x\<close>, the call consumes exactly the run of
  characters classified below \<open>B\<close> and folds the loop body for base \<open>B\<close> over it; when
  that run is not empty and the number it denotes in base \<open>B\<close> is within the limit
  of the kind and sign, the result is that number with the sign applied, status Ok,
  and the run is consumed to its end. On every signed kind \<^verbatim>\<open>"  -0777"\<close> with base 0
  parses to status Ok and value -511, with all 7 characters consumed.
\<close>

theorem strtoi_auto_base:
  assumes "kind_ok k"
    and "B = (if load m (body_start m) = 48
              then if load m (body_start m + 1) = 120 \<or> load m (body_start m + 1) = 88
                   then 16 else 8
              else 10)"
    and "d = (if B = 16 then body_start m + 2 else body_start m)"
  shows "strtoi k m 0 =
           Some (finish k (if B = 16 then body_start m + 1 else 0)
             (Suc (d + length (digit_run B m d)),
              add_digits k B
                (cutoff k (if negative m then FLAG_NEG else 0) B)
                (cutlim k (if negative m then FLAG_NEG else 0) B)
                (digit_run B m d) (0, if negative m then FLAG_NEG else 0)))
       \<and> (digit_run B m d \<noteq> [] \<and>
          num (uint B) 0 (map (\<lambda>c. uint (digit_of c)) (digit_run B m d)) \<le> limit k (negative m) \<longrightarrow>
            strtoi k m 0 =
              Some \<lparr>val = to_type k ((if negative m then - 1 else 1) *
                       num (uint B) 0 (map (\<lambda>c. uint (digit_of c)) (digit_run B m d))),
                    endptr = d + length (digit_run B m d), err = None,
                    flags = (if negative m then FLAG_NEG else 0) OR FLAG_ANY\<rparr>
          \<and> status_of \<lparr>val = to_type k ((if negative m then - 1 else 1) *
                       num (uint B) 0 (map (\<lambda>c. uint (digit_of c)) (digit_run B m d))),
                    endptr = d + length (digit_run B m d), err = None,
                    flags = (if negative m then FLAG_NEG else 0) OR FLAG_ANY\<rparr> = Ok)
       \<and> (is_signed k \<longrightarrow>
            strtoi k (bytes ''  -0777'') 0 = Some \<lparr>val = - 511, endptr = 7, err = None, flags = 3\<rparr>
          \<and> status_of \<lparr>val = - 511, endptr = 7, err = None, flags = 3\<rparr> = Ok)"
proof -
  have wf: "(0::int) = 0 \<or> (2 \<le> (0::int) \<and> (0::int) \<le> 36)" by simp
  have h: "hex_prefix m 0 = (B = 16)"
    by (simp add: hex_prefix_def assms(2))
  have eb: "effective_base m 0 = B"
    by (simp add: effective_base_def hex_prefix_def assms(2))
  have ds: "digits_start m 0 = d"
    by (simp add: digits_start_def h assms(3))
  have 1: "strtoi k m 0 =
           Some (finish k (if B = 16 then body_start m + 1 else 0)
             (Suc (d + length (digit_run B m d)),
              add_digits k B
                (cutoff k (if negative m then FLAG_NEG else 0) B)
                (cutlim k (if negative m then FLAG_NEG else 0) B)
                (digit_run B m d) (0, if negative m then FLAG_NEG else 0)))"
    using strtoi_unfold [OF assms(1) wf, of m] by (simp only: h eb ds)
  have 2: "strtoi k m 0 =
              Some \<lparr>val = to_type k ((if negative m then - 1 else 1) *
                       num (uint B) 0 (map (\<lambda>c. uint (digit_of c)) (digit_run B m d))),
                    endptr = d + length (digit_run B m d), err = None,
                    flags = (if negative m then FLAG_NEG else 0) OR FLAG_ANY\<rparr>"
    if "digit_run B m d \<noteq> []"
      "num (uint B) 0 (map (\<lambda>c. uint (digit_of c)) (digit_run B m d)) \<le> limit k (negative m)"
  proof -
    from that have a: "digit_run (effective_base m 0) m (digits_start m 0) \<noteq> []"
      and b: "num (uint (effective_base m 0)) 0
          (map (\<lambda>c. uint (digit_of c)) (digit_run (effective_base m 0) m (digits_start m 0)))
          \<le> limit k (negative m)"
      by (simp_all add: eb ds)
    from strtoi_value [OF assms(1) wf a b] show ?thesis by (simp only: eb ds)
  qed
  have 3: "status_of \<lparr>val = v, endptr = e, err = None,
                    flags = (if negative m then FLAG_NEG else 0) OR FLAG_ANY\<rparr> = Ok" for v e
    by (simp add: status_of_simps)
  have 4: "strtoi k (bytes ''  -0777'') 0 = Some \<lparr>val = - 511, endptr = 7, err = None, flags = 3\<rparr>"
    if s: "is_signed k"
  proof -
    have m: "bytes ''  -0777'' = bytes ''  '' @ [45] @ bytes ''0777''" by (simp add: bytes_def)
    have ws: "\<forall>c\<in>set (bytes ''  ''). ISSPACE c" by (simp add: bytes_def ISSPACE_def)
    have sg: "[45] = [] \<or> [45] = [43] \<or> [45] = [45::uchar]" by simp
    have ne: "bytes ''0777'' \<noteq> []" by (simp add: bytes_def)
    have eb: "effective_base (bytes ''  '' @ [45] @ bytes ''0777'') 0 = 8" by code_simp
    have all: "\<forall>c\<in>set (bytes ''0777''). digit_of c < effective_base (bytes ''  '' @ [45] @ bytes ''0777'') 0"
      unfolding eb by code_simp
    have n: "num 8 0 (map (\<lambda>c. uint (digit_of c)) (bytes ''0777'')) = 511" by code_simp
    from pow2_ge(1) [OF assms(1)] s
    have big: "511 \<le> limit k True" "strtoi_min k \<le> - 511" "- 511 \<le> strtoi_max k"
      by (simp_all add: limit_def strtoi_min_def strtoi_max_def)
    have fits: "num (uint (effective_base (bytes ''  '' @ [45] @ bytes ''0777'') 0)) 0
        (map (\<lambda>c. uint (digit_of c)) (bytes ''0777'')) \<le> limit k ([45] = [45::uchar])"
      unfolding eb using big(1) n by simp
    have l: "length (bytes ''  -0777'') = 7" by (simp add: bytes_def)
    have eb': "effective_base (bytes ''  -0777'') 0 = 8" by code_simp
    from strtoi_number [OF assms(1) wf ws sg ne all fits]
    have "strtoi k (bytes ''  -0777'') 0 =
      Some \<lparr>val = to_type k (- 511), endptr = 7, err = None, flags = FLAG_NEG OR FLAG_ANY\<rparr>"
      unfolding m [symmetric] eb' l using n by simp
    then show ?thesis
      by (simp add: to_type_id [OF assms(1) big(2,3)] FLAG_NEG_def FLAG_ANY_def)
  qed
  have 5: "status_of \<lparr>val = - 511, endptr = 7, err = None, flags = 3\<rparr> = Ok"
    by (simp add: status_of_def FLAG_ANY_def FLAG_OFLOW_def)
  from 1 2 3 4 5 show ?thesis by blast
qed

theorem strtoi_auto_base_witness:
  "kind_ok long32 \<and> is_signed long32
   \<and> load (bytes ''0x1A'') (body_start (bytes ''0x1A'')) = 48
   \<and> load (bytes ''0x1A'') (body_start (bytes ''0x1A'') + 1) = 120
   \<and> digit_run 16 (bytes ''0x1A'') 2 = bytes ''1A''
   \<and> strtoi long32 (bytes ''0x1A'') 0 = Some \<lparr>val = 26, endptr = 4, err = None, flags = 2\<rparr>
   \<and> load (bytes ''+42'') (body_start (bytes ''+42'')) = 52
   \<and> digit_run 10 (bytes ''+42'') 1 = bytes ''42''
   \<and> strtoi long32 (bytes ''+42'') 0 = Some \<lparr>val = 42, endptr = 3, err = None, flags = 2\<rparr>
   \<and> strtoi long32 (bytes ''  -0777'') 0 = Some \<lparr>val = - 511, endptr = 7, err = None, flags = 3\<rparr>
   \<and> status_of \<lparr>val = - 511, endptr = 7, err = None, flags = 3\<rparr> = Ok"
proof -
  have k: "kind_ok long32" "is_signed long32" by (simp_all add: kind_ok_def long32_def)
  have lim: "limit long32 False = 2147483647"
    by (simp add: limit_def strtoi_max_def long32_def)
  have tt: "to_type long32 26 = 26" "to_type long32 42 = 42"
    by (simp_all add: to_type_def long32_def)
  have x: "load (bytes ''0x1A'') (body_start (bytes ''0x1A'')) = 48"
    "load (bytes ''0x1A'') (body_start (bytes ''0x1A'') + 1) = 120"
    "body_start (bytes ''0x1A'') = 0" "\<not> negative (bytes ''0x1A'')"
    by code_simp+
  have xB: "(16::uchar) = (if load (bytes ''0x1A'') (body_start (bytes ''0x1A'')) = 48
              then if load (bytes ''0x1A'') (body_start (bytes ''0x1A'') + 1) = 120 \<or>
                      load (bytes ''0x1A'') (body_start (bytes ''0x1A'') + 1) = 88
                   then 16 else 8
              else 10)"
    by code_simp
  have xd: "2 = (if (16::uchar) = 16 then body_start (bytes ''0x1A'') + 2 else body_start (bytes ''0x1A''))"
    by code_simp
  have xr: "digit_run 16 (bytes ''0x1A'') 2 = bytes ''1A''" by code_simp
  have xn: "num (uint (16::uchar)) 0 (map (\<lambda>c. uint (digit_of c)) (bytes ''1A'')) = 26"
    by code_simp
  have xl: "bytes ''1A'' \<noteq> []" "length (bytes ''1A'') = 2" by (simp_all add: bytes_def)
  from strtoi_auto_base [OF k(1) xB xd, THEN conjunct2, THEN conjunct1] x(4) xl lim tt(1)
  have a: "strtoi long32 (bytes ''0x1A'') 0 = Some \<lparr>val = 26, endptr = 4, err = None, flags = 2\<rparr>"
    unfolding xr xn by (simp add: FLAG_ANY_def)
  have p: "load (bytes ''+42'') (body_start (bytes ''+42'')) = 52"
    "body_start (bytes ''+42'') = 1" "\<not> negative (bytes ''+42'')"
    by code_simp+
  have pB: "(10::uchar) = (if load (bytes ''+42'') (body_start (bytes ''+42'')) = 48
              then if load (bytes ''+42'') (body_start (bytes ''+42'') + 1) = 120 \<or>
                      load (bytes ''+42'') (body_start (bytes ''+42'') + 1) = 88
                   then 16 else 8
              else 10)"
    by code_simp
  have pd: "1 = (if (10::uchar) = 16 then body_start (bytes ''+42'') + 2 else body_start (bytes ''+42''))"
    by code_simp
  have pr: "digit_run 10 (bytes ''+42'') 1 = bytes ''42''" by code_simp
  have pn: "num (uint (10::uchar)) 0 (map (\<lambda>c. uint (digit_of c)) (bytes ''42'')) = 42"
    by code_simp
  have pl: "bytes ''42'' \<noteq> []" "length (bytes ''42'') = 2" by (simp_all add: bytes_def)
  from strtoi_auto_base [OF k(1) pB pd, THEN conjunct2, THEN conjunct1] p(3) pl lim tt(2)
  have b: "strtoi long32 (bytes ''+42'') 0 = Some \<lparr>val = 42, endptr = 3, err = None, flags = 2\<rparr>"
    unfolding pr pn by (simp add: FLAG_ANY_def)
  from strtoi_auto_base [OF k(1) xB xd, THEN conjunct2, THEN conjunct2] k(2)
  have c: "strtoi long32 (bytes ''  -0777'') 0 = Some \<lparr>val = - 511, endptr = 7, err = None, flags = 3\<rparr>"
    "status_of \<lparr>val = - 511, endptr = 7, err = None, flags = 3\<rparr> = Ok"
    by simp_all
  from k x(1,2) xr a p(1) pr b c show ?thesis by simp
qed

text \<open>
  Claim C8, as amended. For every call with a well-formed base in which the loop
  accepts no character as a digit, the value is 0, \<^verbatim>\<open>errno\<close> is left alone and the
  status is NoDigitsConsumed. The reported end is offset 0, where scanning began,
  however much white space and whichever sign was read, unless a \<^verbatim>\<open>0x\<close> or \<^verbatim>\<open>0X\<close>
  prefix was taken (base 0 or 16): then it is the offset just behind the \<^verbatim>\<open>0\<close> of
  that prefix.
\<close>

theorem strtoi_no_digits:
  assumes "kind_ok k" "ibase = 0 \<or> (2 \<le> ibase \<and> ibase \<le> 36)"
    and "effective_base m ibase \<le> digit_of (load m (digits_start m ibase))"
  shows "strtoi k m ibase =
           Some \<lparr>val = 0, endptr = (if hex_prefix m ibase then body_start m + 1 else 0),
                 err = None, flags = (if negative m then FLAG_NEG else 0)\<rparr>
       \<and> map_option status_of (strtoi k m ibase) = Some NoDigitsConsumed"
  by (simp add: strtoi_zero_run [OF assms] status_of_def FLAG_NEG_def FLAG_ANY_def)

theorem strtoi_no_digits_witness:
  "kind_ok long32
   \<and> effective_base (bytes ''abc'') 10 \<le> digit_of (load (bytes ''abc'') (digits_start (bytes ''abc'') 10))
   \<and> strtoi long32 (bytes ''abc'') 10 = Some \<lparr>val = 0, endptr = 0, err = None, flags = 0\<rparr>
   \<and> map_option status_of (strtoi long32 (bytes ''abc'') 10) = Some NoDigitsConsumed
   \<and> effective_base (bytes '' -.5'') 10 \<le> digit_of (load (bytes '' -.5'') (digits_start (bytes '' -.5'') 10))
   \<and> strtoi long32 (bytes '' -.5'') 10 = Some \<lparr>val = 0, endptr = 0, err = None, flags = 1\<rparr>"
proof -
  have k: "kind_ok long32" by (simp add: kind_ok_def long32_def)
  have h: "effective_base (bytes ''abc'') 10 \<le> digit_of (load (bytes ''abc'') (digits_start (bytes ''abc'') 10))"
    by code_simp
  have p: "\<not> hex_prefix (bytes ''abc'') 10" "\<not> negative (bytes ''abc'')" by code_simp+
  have h': "effective_base (bytes '' -.5'') 10 \<le> digit_of (load (bytes '' -.5'') (digits_start (bytes '' -.5'') 10))"
    by code_simp
  have p': "\<not> hex_prefix (bytes '' -.5'') 10" "negative (bytes '' -.5'')" by code_simp+
  from strtoi_no_digits [OF k _ h] strtoi_no_digits [OF k _ h'] p p' k h h' show ?thesis
    by (auto simp: FLAG_NEG_def)
qed

theorem strtoi_no_digits_counterexample:
  "effective_base (bytes ''0xg'') 16 \<le> digit_of (load (bytes ''0xg'') (digits_start (bytes ''0xg'') 16))
   \<and> strtoi long32 (bytes ''0xg'') 16 = Some \<lparr>val = 0, endptr = 1, err = None, flags = 0\<rparr>"
  by code_simp

text \<open>
  Claim C9, as amended. For every input and every well-formed base the call returns,
  and prepending any run of white-space characters changes neither the value nor
  the status (nor \<^verbatim>\<open>errno\<close> and the flags): only the reported end moves, by the
  length of the run, unless it is the start of the input. Prepending a \<^verbatim>\<open>+\<close> does
  the same to an input that begins with neither white space nor a sign.
\<close>

theorem strtoi_prepend:
  assumes "kind_ok k" "ibase = 0 \<or> (2 \<le> ibase \<and> ibase \<le> 36)"
  shows "strtoi k m ibase \<noteq> None
    \<and> ((\<forall>c\<in>set ws. ISSPACE c) \<longrightarrow>
         strtoi k (ws @ m) ibase = map_option (move_end (length ws)) (strtoi k m ibase)
       \<and> map_option (\<lambda>r. (val r, status_of r)) (strtoi k (ws @ m) ibase) =
           map_option (\<lambda>r. (val r, status_of r)) (strtoi k m ibase))
    \<and> (\<not> ISSPACE (load m 0) \<and> load m 0 \<noteq> 43 \<and> load m 0 \<noteq> 45 \<longrightarrow>
         strtoi k (43 # m) ibase = map_option (move_end 1) (strtoi k m ibase)
       \<and> map_option (\<lambda>r. (val r, status_of r)) (strtoi k (43 # m) ibase) =
           map_option (\<lambda>r. (val r, status_of r)) (strtoi k m ibase))"
proof -
  have some: "strtoi k m ibase \<noteq> None"
    by (simp add: strtoi_unfold [OF assms])
  have same: "map_option (\<lambda>r. (val r, status_of r)) (map_option (move_end n) x) =
      map_option (\<lambda>r. (val r, status_of r)) x" for n x
    by (cases x) (simp_all add: move_end_same)
  have ws: "strtoi k (ws @ m) ibase = map_option (move_end (length ws)) (strtoi k m ibase)"
    if sp: "\<forall>c\<in>set ws. ISSPACE c"
  proof (rule strtoi_shift [OF assms])
    from load_append [of ws m "first_nonspace m"]
    show "body_start (ws @ m) = length ws + body_start m"
      by (simp add: body_start_def first_nonspace_append [OF sp])
    from load_append [of ws m "first_nonspace m"]
    show "negative (ws @ m) = negative m"
      by (simp add: negative_def first_nonspace_append [OF sp])
  qed
  have plus: "strtoi k (43 # m) ibase = map_option (move_end 1) (strtoi k m ibase)"
    if ns: "\<not> ISSPACE (load m 0)" "load m 0 \<noteq> 43" "load m 0 \<noteq> 45"
  proof -
    have f: "first_nonspace (43 # m) = 0" "first_nonspace m = 0"
      using ns(1) by (simp_all add: first_nonspace_0 load_def ISSPACE_def)
    have "body_start ([43] @ m) = length [43::uchar] + body_start m"
      "negative ([43] @ m) = negative m"
      using ns(2,3) by (simp_all add: body_start_def negative_def f load_def)
    from strtoi_shift [OF assms this] show ?thesis by simp
  qed
  from some ws plus show ?thesis by (simp add: same)
qed

theorem strtoi_prepend_witness:
  "kind_ok long32 \<and> ISSPACE 32 \<and> ISSPACE 9 \<and> ISSPACE 10
   \<and> strtoi long32 ([32, 9, 10] @ bytes ''-12'') 10 = Some \<lparr>val = -12, endptr = 6, err = None, flags = 3\<rparr>
   \<and> strtoi long32 (bytes ''-12'') 10 = Some \<lparr>val = -12, endptr = 3, err = None, flags = 3\<rparr>
   \<and> \<not> ISSPACE (load (bytes ''12'') 0) \<and> load (bytes ''12'') 0 \<noteq> 43 \<and> load (bytes ''12'') 0 \<noteq> 45
   \<and> strtoi long32 (43 # bytes ''12'') 10 = Some \<lparr>val = 12, endptr = 3, err = None, flags = 2\<rparr>
   \<and> strtoi long32 (bytes ''12'') 10 = Some \<lparr>val = 12, endptr = 2, err = None, flags = 2\<rparr>"
proof -
  have k: "kind_ok long32" by (simp add: kind_ok_def long32_def)
  have sp: "\<forall>c\<in>set [32, 9, 10]. ISSPACE c" by (simp add: ISSPACE_def)
  have ns: "\<not> ISSPACE (load (bytes ''12'') 0) \<and> load (bytes ''12'') 0 \<noteq> 43 \<and> load (bytes ''12'') 0 \<noteq> 45"
    by code_simp
  have a: "strtoi long32 (bytes ''-12'') 10 = Some \<lparr>val = -12, endptr = 3, err = None, flags = 3\<rparr>"
    by code_simp
  have b: "strtoi long32 (bytes ''12'') 10 = Some \<lparr>val = 12, endptr = 2, err = None, flags = 2\<rparr>"
    by code_simp
  from strtoi_prepend [OF k, of 10 "bytes ''-12''" "[32, 9, 10]"] sp a
  have a': "strtoi long32 ([32, 9, 10] @ bytes ''-12'') 10 = Some \<lparr>val = -12, endptr = 6, err = None, flags = 3\<rparr>"
    by (simp add: move_end_def)
  from strtoi_prepend [OF k, of 10 "bytes ''12''"] ns b
  have b': "strtoi long32 (43 # bytes ''12'') 10 = Some \<lparr>val = 12, endptr = 3, err = None, flags = 2\<rparr>"
    by (simp add: move_end_def)
  from k sp ns a b a' b' show ?thesis by simp
qed

theorem strtoi_prepend_counterexample:
  "strtoi long32 (bytes ''-1'') 10 = Some \<lparr>val = -1, endptr = 2, err = None, flags = 3\<rparr>
   \<and> strtoi long32 (43 # bytes ''-1'') 10 = Some \<lparr>val = 0, endptr = 0, err = None, flags = 0\<rparr>
   \<and> status_of \<lparr>val = -1, endptr = 2, err = None, flags = 3\<rparr> = Ok
   \<and> status_of \<lparr>val = 0, endptr = 0, err = None, flags = 0\<rparr> = NoDigitsConsumed"
  by code_simp

text \<open>
  Claim C10. For every unsigned width kind of \<open>w\<close> bits, an input made of \<^verbatim>\<open>-\<close> and
  then digits of the effective base whose magnitude \<open>m\<close> does not exceed the kind's
  maximum parses to status Ok with the value \<open>(2^w - m) mod 2^w\<close>: the magnitude
  negated modulo \<open>2^w\<close>.
\<close>

theorem strtoi_unsigned_minus:
  assumes "kind_ok k" "\<not> is_signed k" "ibase = 0 \<or> (2 \<le> ibase \<and> ibase \<le> 36)"
    and "cs \<noteq> []" "\<forall>c\<in>set cs. digit_of c < effective_base (45 # cs) ibase"
    and "num (uint (effective_base (45 # cs) ibase)) 0 (map (\<lambda>c. uint (digit_of c)) cs)
           \<le> strtoi_max k"
  shows "strtoi k (45 # cs) ibase =
           Some \<lparr>val = (2 ^ bits k -
                     num (uint (effective_base (45 # cs) ibase)) 0 (map (\<lambda>c. uint (digit_of c)) cs))
                   mod 2 ^ bits k,
                 endptr = Suc (length cs), err = None, flags = FLAG_NEG OR FLAG_ANY\<rparr>
       \<and> map_option status_of (strtoi k (45 # cs) ibase) = Some Ok"
proof -
  let ?N = "num (uint (effective_base (45 # cs) ibase)) 0 (map (\<lambda>c. uint (digit_of c)) cs)"
  have ws: "\<forall>c\<in>set []. ISSPACE c" by simp
  have sg: "[45] = [] \<or> [45] = [43] \<or> [45] = [45::uchar]" by simp
  from assms(2,6) have fits: "num (uint (effective_base ([] @ [45] @ cs) ibase)) 0
      (map (\<lambda>c. uint (digit_of c)) cs) \<le> limit k ([45] = [45::uchar])"
    by (simp add: limit_def)
  from assms(5) have all: "\<forall>c\<in>set cs. digit_of c < effective_base ([] @ [45] @ cs) ibase"
    by simp
  have "to_type k (- ?N) = (- ?N + 2 ^ bits k) mod 2 ^ bits k"
    using assms(2) by (simp add: to_type_def)
  then have v: "to_type k (- ?N) = (2 ^ bits k - ?N) mod 2 ^ bits k"
    by (simp add: algebra_simps)
  from strtoi_number [OF assms(1,3) ws sg assms(4) all fits]
  have "strtoi k (45 # cs) ibase =
      Some \<lparr>val = to_type k (- ?N), endptr = Suc (length cs), err = None,
            flags = FLAG_NEG OR FLAG_ANY\<rparr>"
    by simp
  then show ?thesis
    by (simp add: v status_of_def FLAG_NEG_def FLAG_ANY_def FLAG_OFLOW_def)
qed

theorem strtoi_unsigned_minus_witness:
  "kind_ok ulong32 \<and> \<not> is_signed ulong32
   \<and> digit_of 48 < effective_base (45 # bytes ''010'') 0
   \<and> digit_of 49 < effective_base (45 # bytes ''010'') 0
   \<and> num (uint (effective_base (45 # bytes ''010'') 0)) 0 (map (\<lambda>c. uint (digit_of c)) (bytes ''010'')) = 8
   \<and> 8 \<le> strtoi_max ulong32
   \<and> strtoi ulong32 (bytes ''-010'') 0 = Some \<lparr>val = 4294967288, endptr = 4, err = None, flags = 3\<rparr>"
proof -
  have k: "kind_ok ulong32" "\<not> is_signed ulong32" by (simp_all add: kind_ok_def ulong32_def)
  have a: "\<forall>c\<in>set (bytes ''010''). digit_of c < effective_base (45 # bytes ''010'') 0"
    by code_simp
  have n: "num (uint (effective_base (45 # bytes ''010'') 0)) 0 (map (\<lambda>c. uint (digit_of c)) (bytes ''010'')) = 8"
    by code_simp
  have m: "8 \<le> strtoi_max ulong32" by (simp add: strtoi_max_def ulong32_def)
  have b: "bytes ''-010'' = 45 # bytes ''010''" "bytes ''010'' \<noteq> []" "length (bytes ''010'') = 3"
    by (simp_all add: bytes_def)
  have w: "bits ulong32 = 32" by (simp add: ulong32_def)
  from strtoi_unsigned_minus [OF k _ b(2) a] n m
  have "strtoi ulong32 (bytes ''-010'') 0 = Some \<lparr>val = 4294967288, endptr = 4, err = None, flags = 3\<rparr>"
    by (simp add: b w FLAG_NEG_def FLAG_ANY_def)
  moreover from a have "digit_of 48 < effective_base (45 # bytes ''010'') 0"
    "digit_of 49 < effective_base (45 # bytes ''010'') 0"
    by (simp_all add: bytes_def)
  ultimately show ?thesis using k n m by simp
qed

end
